theory Spec2Isabelle
  imports Main "HOL-Library.Char_ord" "HOL-Library.List_Lexorder"
begin

section \<open>Wordlist generator: a shallow embedding of \<open>wordlist_generator.py\<close>\<close>

text \<open>
  The class \<open>WordlistGenerator\<close> is embedded function by function. A Python \<open>str\<close> is a
  \<^typ>\<open>string\<close>, a list of code points below 256. The class \<open>\w\<close>, \<open>str.lower()\<close> and
  \<open>str.strip()\<close> are Python's on all of these code points; the case tests, the digit
  test and upper-casing are Python's on the ASCII range (a character above 127 is
  cased and upper-cased as a symbol would be). A Python \<open>set\<close> of strings is
  the list of its insertions, read through \<^const>\<open>set\<close>; the one place where the source
  reads a set in iteration order takes that order as a parameter. The year that the
  constructor reads from the clock is a parameter as well.
\<close>

subsection \<open>Characters and strings\<close>

definition is_digit :: "char \<Rightarrow> bool" where
  "is_digit c \<longleftrightarrow> CHR ''0'' \<le> c \<and> c \<le> CHR ''9''"

definition is_upper :: "char \<Rightarrow> bool" where
  "is_upper c \<longleftrightarrow> CHR ''A'' \<le> c \<and> c \<le> CHR ''Z''"

definition is_lower :: "char \<Rightarrow> bool" where
  "is_lower c \<longleftrightarrow> CHR ''a'' \<le> c \<and> c \<le> CHR ''z''"

definition is_alnum :: "char \<Rightarrow> bool" where
  "is_alnum c \<longleftrightarrow> is_digit c \<or> is_upper c \<or> is_lower c"

text \<open>The class \<open>\w\<close> of the \<open>re\<close> module on \<open>str\<close>: the underscore and every character
  that \<open>str.isalnum()\<close> accepts. Above the ASCII range these are the letters, the
  superscript digits and the fractions: codes 170, 178, 179, 181, 185, 186, 188 to 190,
  192 to 214, 216 to 246 and 248 to 255.\<close>

definition is_high_word :: "char \<Rightarrow> bool" where
  "is_high_word c \<longleftrightarrow>
     (let n = (of_char c :: nat) in
        n = 170 \<or> n = 178 \<or> n = 179 \<or> n = 181 \<or> n = 185 \<or> n = 186
        \<or> (188 \<le> n \<and> n \<le> 190) \<or> (192 \<le> n \<and> n \<le> 214)
        \<or> (216 \<le> n \<and> n \<le> 246) \<or> 248 \<le> n)"

definition is_word :: "char \<Rightarrow> bool" where
  "is_word c \<longleftrightarrow> is_alnum c \<or> c = CHR ''_'' \<or> is_high_word c"

text \<open>What \<open>str.strip()\<close> removes: codes 9 to 13, 28 to 32, 133 and 160.\<close>

definition is_space :: "char \<Rightarrow> bool" where
  "is_space c \<longleftrightarrow>
     (let n = (of_char c :: nat) in
        (9 \<le> n \<and> n \<le> 13) \<or> (28 \<le> n \<and> n \<le> 32) \<or> n = 133 \<or> n = 160)"

text \<open>\<open>str.lower()\<close> changes the letters \<open>A\<close> to \<open>Z\<close> and, above the ASCII range, the
  upper-case letters with codes 192 to 214 and 216 to 222; each moves up by 32.\<close>

definition is_high_upper :: "char \<Rightarrow> bool" where
  "is_high_upper c \<longleftrightarrow>
     (let n = (of_char c :: nat) in (192 \<le> n \<and> n \<le> 214) \<or> (216 \<le> n \<and> n \<le> 222))"

definition lower_char :: "char \<Rightarrow> char" where
  "lower_char c =
     (if is_upper c \<or> is_high_upper c then char_of (of_char c + (32::nat)) else c)"

definition upper_char :: "char \<Rightarrow> char" where
  "upper_char c = (if is_lower c then char_of (of_char c - (32::nat)) else c)"

definition lower :: "string \<Rightarrow> string" where
  "lower s = map lower_char s"

definition upper :: "string \<Rightarrow> string" where
  "upper s = map upper_char s"

text \<open>\<open>str.capitalize()\<close>: the first character upper-cased, every other one lower-cased.\<close>

fun capitalize :: "string \<Rightarrow> string" where
  "capitalize [] = []"
| "capitalize (c # cs) = upper_char c # map lower_char cs"

definition strip :: "string \<Rightarrow> string" where
  "strip s = rev (dropWhile is_space (rev (dropWhile is_space s)))"

text \<open>\<open>str.isdigit()\<close> and \<open>str.islower()\<close>: both are false on the empty string, and
  \<open>islower\<close> asks for one cased character at least and no upper-case one.\<close>

definition isdigit :: "string \<Rightarrow> bool" where
  "isdigit s \<longleftrightarrow> s \<noteq> [] \<and> list_all is_digit s"

definition islower :: "string \<Rightarrow> bool" where
  "islower s \<longleftrightarrow> list_ex is_lower s \<and> \<not> list_ex is_upper s"

text \<open>\<open>y in w\<close> on strings: \<open>y\<close> occurs in \<open>w\<close> as a contiguous substring.\<close>

fun py_in :: "string \<Rightarrow> string \<Rightarrow> bool" where
  "py_in y [] = (y = [])"
| "py_in y (c # cs) = (take (length y) (c # cs) = y \<or> py_in y cs)"

text \<open>\<open>str(n)\<close> for an integer.\<close>

fun str_nat :: "nat \<Rightarrow> string" where
  "str_nat n = (if n < 10 then [char_of (48 + n)] else str_nat (n div 10) @ [char_of (48 + n mod 10)])"

declare str_nat.simps [simp del]

definition str_int :: "int \<Rightarrow> string" where
  "str_int i = (if i < 0 then CHR ''-'' # str_nat (nat (- i)) else str_nat (nat i))"

subsection \<open>The date patterns and \<open>re.findall\<close>\<close>

text \<open>
  The five patterns of \<open>_process_dates\<close> are sequences of two kinds of items: a literal
  character, and a capturing group \<open>(\d{lo,hi})\<close>. A group is greedy and backtracks: it
  tries \<open>hi\<close> digits first, then fewer, down to \<open>lo\<close>. A successful match gives the
  captured groups and the number of characters consumed.
\<close>

datatype re_item = Lit char | Digits nat nat

fun first_some :: "'a option list \<Rightarrow> 'a option" where
  "first_some [] = None"
| "first_some (None # xs) = first_some xs"
| "first_some (Some x # xs) = Some x"

fun re_match :: "re_item list \<Rightarrow> string \<Rightarrow> (string list \<times> nat) option" where
  "re_match [] s = Some ([], 0)"
| "re_match (Lit c # its) s =
     (case s of
        [] \<Rightarrow> None
      | x # xs \<Rightarrow> if x = c then map_option (\<lambda>(gs, n). (gs, Suc n)) (re_match its xs) else None)"
| "re_match (Digits lo hi # its) s =
     first_some (map (\<lambda>k. if k \<le> length s \<and> list_all is_digit (take k s)
                            then map_option (\<lambda>(gs, n). (take k s # gs, k + n)) (re_match its (drop k s))
                            else None)
                     (rev [lo ..< Suc hi]))"

text \<open>\<open>re.findall\<close>: scan from the left; after a match the scan resumes where the match
  ended (no pattern here matches the empty string), otherwise one character further.\<close>

fun findall :: "re_item list \<Rightarrow> string \<Rightarrow> string list list" where
  "findall p [] = []"
| "findall p (c # cs) =
     (case re_match p (c # cs) of
        Some (gs, n) \<Rightarrow> gs # findall p (drop (n - 1) cs)
      | None \<Rightarrow> findall p cs)"

definition date_formats :: "re_item list list" where
  "date_formats =
    [[Digits 4 4],
     [Digits 1 2, Lit (CHR ''/''), Digits 1 2, Lit (CHR ''/''), Digits 4 4],
     [Digits 1 2, Lit (CHR ''-''), Digits 1 2, Lit (CHR ''-''), Digits 4 4],
     [Digits 4 4, Lit (CHR ''-''), Digits 1 2, Lit (CHR ''-''), Digits 1 2],
     [Digits 1 2, Lit (CHR ''.''), Digits 1 2, Lit (CHR ''.''), Digits 4 4]]"

text \<open>The fragments one date string adds to \<open>date_words\<close>: nothing when the stripped
  string is empty, else every group of every match of every pattern, in that order.\<close>

definition date_fragments :: "string \<Rightarrow> string list" where
  "date_fragments date_str =
     (if strip date_str = [] then []
      else concat (map (\<lambda>pattern. concat (findall pattern (strip date_str))) date_formats))"

definition process_dates :: "string list \<Rightarrow> string list" where
  "process_dates dates = filter isdigit (concat (map date_fragments dates))"

subsection \<open>The generator's tables\<close>

text \<open>The fields that \<open>__init__\<close> sets. \<open>years\<close> is built from the year the constructor
  reads from the clock, \<open>range(current_year - 50, current_year + 5)\<close>.\<close>

definition common_numbers :: "string list" where
  "common_numbers = [''1'', ''12'', ''123'', ''1234'', ''01'', ''001'', ''2024'', ''2025'']"

definition years :: "int \<Rightarrow> string list" where
  "years current_year = map str_int [current_year - 50 .. current_year + 4]"

definition prefixes :: "string list" where
  "prefixes = ['''', ''my'', ''the'', ''i'', ''love'']"

definition suffixes :: "string list" where
  "suffixes = ['''', ''!'', ''!!'', ''123'', ''12'', ''1'', ''01'', ''001'', ''@'', ''#'']"

definition leet_substitutions :: "(char \<times> char list) list" where
  "leet_substitutions =
    [(CHR ''a'', ''@4''), (CHR ''e'', ''3''), (CHR ''i'', ''1!''), (CHR ''o'', ''0''),
     (CHR ''s'', ''5$''), (CHR ''t'', ''7''), (CHR ''l'', ''1''), (CHR ''g'', ''9''),
     (CHR ''b'', ''6'')]"

definition separators :: "string list" where
  "separators = ['''', ''_'', ''-'', ''.'', ''!'', ''@'', ''#'']"

subsection \<open>Variations of one word\<close>

text \<open>\<open>re.sub(r'[^\w]', '', word.lower())\<close>.\<close>

definition clean_word :: "string \<Rightarrow> string" where
  "clean_word word = filter is_word (lower word)"

text \<open>\<open>s.replace(char, sub)\<close> for one-character \<open>char\<close> and \<open>sub\<close>.\<close>

definition replace :: "char \<Rightarrow> char \<Rightarrow> string \<Rightarrow> string" where
  "replace char sub s = map (\<lambda>c. if c = char then sub else c) s"

definition leet_chars :: "string \<Rightarrow> char list list" where
  "leet_chars word =
     map (\<lambda>char. case map_of leet_substitutions char of
                    Some subs \<Rightarrow> char # subs
                  | None \<Rightarrow> [char])
         (lower word)"

text \<open>What one candidate adds to the set: itself and its capitalized form, unless it is
  the lower-cased word.\<close>

definition leet_emit :: "string \<Rightarrow> string \<Rightarrow> string list" where
  "leet_emit word leet_word = (if leet_word \<noteq> lower word then [leet_word, capitalize leet_word] else [])"

definition generate_leet_variations :: "string \<Rightarrow> string list" where
  "generate_leet_variations word =
     (if length (leet_chars word) \<le> 6
      then concat (map (leet_emit word) (product_lists (leet_chars word)))
      else concat (map (\<lambda>(char, subs).
                          concat (map (\<lambda>sub. leet_emit word (replace char sub (lower word))) subs))
                       leet_substitutions))"

definition generate_word_variations :: "int \<Rightarrow> string \<Rightarrow> bool \<Rightarrow> bool \<Rightarrow> string list" where
  "generate_word_variations current_year word include_leet include_years =
     (let cw = clean_word word in
      if cw = [] then []
      else filter (\<lambda>v. 3 \<le> length v)
        ([cw, capitalize cw, upper cw]
         @ concat (map (\<lambda>prefix. concat (map (\<lambda>suffix.
               if prefix \<noteq> [] \<or> suffix \<noteq> []
               then [prefix @ cw @ suffix, prefix @ capitalize cw @ suffix]
               else []) suffixes)) prefixes)
         @ concat (map (\<lambda>num. [cw @ num, capitalize cw @ num, num @ cw]) common_numbers)
         @ (if include_years
            then concat (map (\<lambda>year. [cw @ year, capitalize cw @ year]) (years current_year))
            else [])
         @ (if include_leet then generate_leet_variations cw else [])))"

subsection \<open>Combinations of two words\<close>

text \<open>What one ordered pair of cleaned words adds, separator by separator.\<close>

definition combo_forms :: "int \<Rightarrow> bool \<Rightarrow> string \<Rightarrow> string \<Rightarrow> string list" where
  "combo_forms current_year include_years cw1 cw2 =
     concat (map (\<lambda>sep. let combo = cw1 @ sep @ cw2 in
                     [combo, capitalize combo]
                     @ map (\<lambda>num. combo @ num) (take 3 common_numbers)
                     @ (if include_years
                        then map (\<lambda>year. combo @ year) (take 5 (years current_year))
                        else []))
                 separators)"

text \<open>Every insertion into \<open>combinations\<close>, in the order of the two nested loops over
  \<open>enumerate(words)\<close>; pairs are told apart by position, not by value.\<close>

definition combination_insertions :: "int \<Rightarrow> string list \<Rightarrow> bool \<Rightarrow> string list" where
  "combination_insertions current_year words include_years =
     concat (map (\<lambda>(i, word1). concat (map (\<lambda>(j, word2).
         if i \<noteq> j
         then (if clean_word word1 = [] \<or> clean_word word2 = [] then []
               else combo_forms current_year include_years (clean_word word1) (clean_word word2))
         else []) (enumerate 0 words))) (enumerate 0 words))"

text \<open>
  \<open>set(list(combinations)[:1000])\<close> reads the set in its iteration order, which Python
  leaves open (for strings it changes with the hash seed of the process). The order is
  the parameter \<open>set_order\<close>: from the insertions it gives the elements of the set, each
  once, in the order \<open>list\<close> would.
\<close>

definition valid_set_order :: "(string list \<Rightarrow> string list) \<Rightarrow> bool" where
  "valid_set_order set_order \<longleftrightarrow> (\<forall>xs. distinct (set_order xs) \<and> set (set_order xs) = set xs)"

definition generate_combinations ::
  "(string list \<Rightarrow> string list) \<Rightarrow> int \<Rightarrow> string list \<Rightarrow> bool \<Rightarrow> bool \<Rightarrow> string list" where
  "generate_combinations set_order current_year words include_leet include_years =
     (if length words < 2 then []
      else take 1000 (set_order (combination_insertions current_year words include_years)))"

subsection \<open>Scoring and truncation\<close>

datatype py_error = IndexError

text \<open>\<open>re.search(r'\d+$', word)\<close>: a digit at the very end, or just before a final
  newline (where \<open>$\<close> matches too).\<close>

definition ends_in_digits :: "string \<Rightarrow> bool" where
  "ends_in_digits word \<longleftrightarrow>
     word \<noteq> [] \<and>
     (is_digit (last word) \<or>
      (last word = CHR 0x0A \<and> butlast word \<noteq> [] \<and> is_digit (last (butlast word))))"

definition leet_count :: "string \<Rightarrow> nat" where
  "leet_count word = length (filter (\<lambda>char. char \<in> set ''@31057!'') word)"

text \<open>\<open>word_score\<close>; \<open>word[0]\<close> raises on the empty word.\<close>

definition word_score :: "int \<Rightarrow> string \<Rightarrow> py_error + int" where
  "word_score current_year word =
     (case word of
        [] \<Rightarrow> Inl IndexError
      | c # cs \<Rightarrow>
          Inr (max 0 (20 - int (length word))
               + (if ends_in_digits word then 10 else 0)
               + (if is_upper c \<and> islower cs then 5 else 0)
               + (if list_ex (\<lambda>year. py_in year word) (take 10 (years current_year)) then 15 else 0)
               + min (int (leet_count word) * 3) 10))"

text \<open>The list comprehension that scores every word stops at the first error.\<close>

fun scored_words :: "int \<Rightarrow> string list \<Rightarrow> py_error + (string \<times> int) list" where
  "scored_words current_year [] = Inr []"
| "scored_words current_year (word # ws) =
     (case word_score current_year word of
        Inl e \<Rightarrow> Inl e
      | Inr s \<Rightarrow> (case scored_words current_year ws of
                   Inl e \<Rightarrow> Inl e
                 | Inr rest \<Rightarrow> Inr ((word, s) # rest)))"

text \<open>The slice \<open>xs[:n]\<close>: a negative \<open>n\<close> counts from the end.\<close>

definition slice_to :: "int \<Rightarrow> 'a list \<Rightarrow> 'a list" where
  "slice_to n xs = (if 0 \<le> n then take (nat n) xs else take (length xs - nat (- n)) xs)"

text \<open>\<open>list.sort(key=..., reverse=True)\<close> is a stable sort by descending key: elements
  with equal keys keep their order. \<^const>\<open>sort_key\<close> is a stable sort by ascending key.\<close>

definition prioritize_words :: "int \<Rightarrow> string list \<Rightarrow> int \<Rightarrow> py_error + string list" where
  "prioritize_words current_year wordlist max_words =
     (case scored_words current_year wordlist of
        Inl e \<Rightarrow> Inl e
      | Inr scored \<Rightarrow> Inr (map fst (slice_to max_words (sort_key (\<lambda>x. - snd x) scored))))"

subsection \<open>\<open>generate_wordlist\<close>\<close>

record kwargs =
  names :: "string list"
  dates :: "string list"
  pets :: "string list"
  interests :: "string list"
  include_years :: bool
  include_leet :: bool
  include_combinations :: bool
  max_words :: int

definition stripped :: "string list \<Rightarrow> string list" where
  "stripped xs = map strip (filter (\<lambda>x. strip x \<noteq> []) xs)"

definition base_words :: "kwargs \<Rightarrow> string list" where
  "base_words k = stripped (names k) @ stripped (pets k) @ stripped (interests k) @ process_dates (dates k)"

text \<open>Every insertion into the set \<open>wordlist\<close>.\<close>

definition wordlist_insertions :: "(string list \<Rightarrow> string list) \<Rightarrow> int \<Rightarrow> kwargs \<Rightarrow> string list" where
  "wordlist_insertions set_order current_year k =
     concat (map (\<lambda>word. generate_word_variations current_year word (include_leet k) (include_years k))
                 (filter (\<lambda>word. word \<noteq> []) (base_words k)))
     @ (if include_combinations k \<and> base_words k \<noteq> []
        then generate_combinations set_order current_year (take 5 (base_words k))
               (include_leet k) (include_years k)
        else [])"

text \<open>\<open>sorted(list(wordlist))\<close>: the elements of the set, each once, in ascending order.\<close>

definition final_wordlist :: "(string list \<Rightarrow> string list) \<Rightarrow> int \<Rightarrow> kwargs \<Rightarrow> string list" where
  "final_wordlist set_order current_year k = sort (remdups (wordlist_insertions set_order current_year k))"

definition generate_wordlist :: "(string list \<Rightarrow> string list) \<Rightarrow> int \<Rightarrow> kwargs \<Rightarrow> py_error + string list" where
  "generate_wordlist set_order current_year k =
     (if max_words k \<noteq> 0 \<and> max_words k < int (length (final_wordlist set_order current_year k))
      then prioritize_words current_year (final_wordlist set_order current_year k) (max_words k)
      else Inr (final_wordlist set_order current_year k))"

subsection \<open>Statistics\<close>

record charset_distribution =
  lowercase_only :: nat
  uppercase_only :: nat
  mixed_case :: nat
  with_numbers :: nat
  with_symbols :: nat

definition count_word :: "string \<Rightarrow> charset_distribution \<Rightarrow> charset_distribution" where
  "count_word word d =
     (let has_lower = list_ex is_lower word;
          has_upper = list_ex is_upper word;
          has_digit = list_ex is_digit word;
          has_symbol = list_ex (\<lambda>c. \<not> is_alnum c) word;
          d1 = (if has_lower \<and> \<not> has_upper then d\<lparr>lowercase_only := lowercase_only d + 1\<rparr>
                else if has_upper \<and> \<not> has_lower then d\<lparr>uppercase_only := uppercase_only d + 1\<rparr>
                else if has_lower \<and> has_upper then d\<lparr>mixed_case := mixed_case d + 1\<rparr>
                else d);
          d2 = (if has_digit then d1\<lparr>with_numbers := with_numbers d1 + 1\<rparr> else d1)
      in if has_symbol then d2\<lparr>with_symbols := with_symbols d2 + 1\<rparr> else d2)"

definition analyze_charset_distribution :: "string list \<Rightarrow> charset_distribution" where
  "analyze_charset_distribution wordlist =
     fold count_word wordlist
       \<lparr>lowercase_only = 0, uppercase_only = 0, mixed_case = 0, with_numbers = 0, with_symbols = 0\<rparr>"

text \<open>The values of the statistics dictionary. \<open>Average total n\<close> stands for the float
  \<open>round(total / n, 2)\<close>, whose rounding is not computed here.\<close>

datatype stat_value = Count nat | Average nat nat | Distribution charset_distribution

text \<open>The dictionary that \<open>get_wordlist_stats\<close> returns, as its items in order.\<close>

definition get_wordlist_stats :: "string list \<Rightarrow> (string \<times> stat_value) list" where
  "get_wordlist_stats wordlist =
     (if wordlist = []
      then [(''total_words'', Count 0),
            (''avg_length'', Count 0),
            (''min_length'', Count 0),
            (''max_length'', Count 0),
            (''unique_words'', Count 0)]
      else (let lengths = map length wordlist in
            [(''total_words'', Count (length wordlist)),
             (''avg_length'', Average (sum_list lengths) (length lengths)),
             (''min_length'', Count (Min (set lengths))),
             (''max_length'', Count (Max (set lengths))),
             (''unique_words'', Count (card (set wordlist))),
             (''charset_distribution'', Distribution (analyze_charset_distribution wordlist))]))"

subsection \<open>The score as the specification words it\<close>

text \<open>The relevance score as the specification's formula reads: a bonus of 10 for a word
  whose last character is a digit, of 5 for an upper-case first character followed by
  lower-case characters only, and 3 per character of the marker set \<open>@ 3 1 0 5 7\<close>.\<close>

definition claimed_score :: "int \<Rightarrow> string \<Rightarrow> int" where
  "claimed_score current_year word =
     max 0 (20 - int (length word))
     + (if word \<noteq> [] \<and> is_digit (last word) then 10 else 0)
     + (if word \<noteq> [] \<and> is_upper (hd word) \<and> list_all is_lower (tl word) then 5 else 0)
     + (if list_ex (\<lambda>year. py_in year word) (take 10 (years current_year)) then 15 else 0)
     + min (3 * int (length (filter (\<lambda>c. c \<in> set ''@31057'') word))) 10"

text \<open>The same formula with the two readings the code has: the capitalization bonus asks
  that the rest of the word holds a lower-case letter and no upper-case letter (digits and
  symbols are allowed there), and the exclamation mark is a marker too.\<close>

definition amended_score :: "int \<Rightarrow> string \<Rightarrow> int" where
  "amended_score current_year word =
     max 0 (20 - int (length word))
     + (if word \<noteq> [] \<and> is_digit (last word) then 10 else 0)
     + (if word \<noteq> [] \<and> is_upper (hd word)
           \<and> list_ex is_lower (tl word) \<and> \<not> list_ex is_upper (tl word) then 5 else 0)
     + (if list_ex (\<lambda>year. py_in year word) (take 10 (years current_year)) then 15 else 0)
     + min (3 * int (length (filter (\<lambda>c. c \<in> set ''@31057!'') word))) 10"

subsection \<open>Concrete calls\<close>

text \<open>The keyword arguments with their defaults, for a given list of names.\<close>

definition defaults :: "string list \<Rightarrow> kwargs" where
  "defaults ns =
     \<lparr>names = ns, dates = [], pets = [], interests = [],
      include_years = True, include_leet = True, include_combinations = True,
      max_words = 10000\<rparr>"

subsection \<open>The score as a number\<close>

text \<open>The integer that \<open>word_score\<close> returns; on the empty word, where the source raises,
  the value is not used.\<close>

definition score :: "int \<Rightarrow> string \<Rightarrow> int" where
  "score current_year word = (case word_score current_year word of Inr s \<Rightarrow> s | Inl e \<Rightarrow> 0)"

subsection \<open>Two iteration orders\<close>

text \<open>Two orders in which a set of strings may be listed: one puts the string \<open>w\<close> first, the
  other puts it last. They stand for two runs of the interpreter with different hash
  seeds.\<close>

definition order_first :: "string \<Rightarrow> string list \<Rightarrow> string list" where
  "order_first w xs = (if w \<in> set xs then w # removeAll w (remdups xs) else remdups xs)"

definition order_last :: "string \<Rightarrow> string list \<Rightarrow> string list" where
  "order_last w xs = (if w \<in> set xs then removeAll w (remdups xs) @ [w] else remdups xs)"

definition five_names :: "string list" where
  "five_names = [''anna'', ''beth'', ''carl'', ''dave'', ''emma'']"

section \<open>Properties\<close>

subsection \<open>Evaluation and basic facts\<close>

text \<open>The unfolding rules with which the simplifier computes the character functions on
  literal strings.\<close>

lemmas char_eval = char_of_def bit_Suc_0_iff lower_def upper_def lower_char_def upper_char_def
  is_upper_def is_lower_def is_digit_def is_word_def is_alnum_def is_space_def
  is_high_word_def is_high_upper_def

lemmas year_eval = years_def upto.simps str_int_def str_nat.simps

lemma set_final_wordlist: "set (final_wordlist so cy k) = set (wordlist_insertions so cy k)"
  by (simp add: final_wordlist_def)

lemma clean_in_variations:
  "3 \<le> length (clean_word w) \<Longrightarrow> clean_word w \<in> set (generate_word_variations cy w il iy)"
  by (auto simp add: generate_word_variations_def Let_def)

lemma lower_char_not_word: "\<not> is_word c \<Longrightarrow> lower_char c = c"
  by (auto simp add: lower_char_def is_word_def is_alnum_def is_high_word_def is_high_upper_def
      Let_def)

lemma not_word_clean: "\<not> list_ex is_word word \<Longrightarrow> clean_word word = []"
  by (simp add: clean_word_def lower_def list_ex_iff filter_empty_conv lower_char_not_word)

subsection \<open>Statistics\<close>

text \<open>
  C5. \<open>get_wordlist_stats\<close> is to return the six fields \<open>total_words\<close>, \<open>avg_length\<close>,
  \<open>min_length\<close>, \<open>max_length\<close>, \<open>unique_words\<close> and \<open>charset_distribution\<close> for every
  wordlist. On the empty wordlist the dictionary has the first five keys only:
  \<open>charset_distribution\<close> is missing, while the branch for a non-empty wordlist has it
  (\<open>stats_keys_nonempty\<close>).
\<close>

theorem stats_keys_empty:
  "map fst (get_wordlist_stats []) =
     [''total_words'', ''avg_length'', ''min_length'', ''max_length'', ''unique_words'']"
  by (simp add: get_wordlist_stats_def)

lemma stats_keys_nonempty:
  "wordlist \<noteq> [] \<Longrightarrow>
   map fst (get_wordlist_stats wordlist) =
     [''total_words'', ''avg_length'', ''min_length'', ''max_length'', ''unique_words'',
      ''charset_distribution'']"
  by (simp add: get_wordlist_stats_def Let_def)

subsection \<open>The ceiling\<close>

text \<open>
  C10. With \<open>max_words = 0\<close> the truncation is skipped: \<open>generate_wordlist\<close> returns the
  whole aggregate, sorted and without duplicates, whatever its size. The guard
  \<open>if max_words and ...\<close> is false for a zero ceiling.
\<close>

theorem zero_ceiling:
  "max_words k = 0 \<Longrightarrow>
   generate_wordlist so cy k = Inr (final_wordlist so cy k)
   \<and> sorted (final_wordlist so cy k) \<and> distinct (final_wordlist so cy k)
   \<and> set (final_wordlist so cy k) = set (wordlist_insertions so cy k)"
  by (simp add: generate_wordlist_def final_wordlist_def)

theorem zero_ceiling_witness:
  "max_words ((defaults [''bob''])\<lparr>max_words := 0\<rparr>) = 0
   \<and> generate_wordlist remdups 2026 ((defaults [''bob''])\<lparr>max_words := 0\<rparr>)
       = Inr (final_wordlist remdups 2026 ((defaults [''bob''])\<lparr>max_words := 0\<rparr>))
   \<and> ''bob'' \<in> set (final_wordlist remdups 2026 ((defaults [''bob''])\<lparr>max_words := 0\<rparr>))"
proof -
  have m: "max_words ((defaults [''bob''])\<lparr>max_words := 0\<rparr>) = 0" by simp
  have c: "clean_word ''bob'' = ''bob''" by (simp add: clean_word_def char_eval)
  have b: "base_words ((defaults [''bob''])\<lparr>max_words := 0\<rparr>) = [''bob'']"
    by (simp add: base_words_def defaults_def stripped_def process_dates_def strip_def char_eval)
  have "''bob'' \<in> set (generate_word_variations 2026 ''bob'' True True)"
    using clean_in_variations [of "''bob''" 2026 True True] c by simp
  then have "''bob'' \<in> set (wordlist_insertions remdups 2026 ((defaults [''bob''])\<lparr>max_words := 0\<rparr>))"
    by (simp add: wordlist_insertions_def b) (simp add: defaults_def)
  with zero_ceiling [OF m, of remdups 2026] m show ?thesis by simp
qed

subsection \<open>The relevance score\<close>

text \<open>
  C4, as stated: the score of a word is \<^const>\<open>claimed_score\<close>, with the marker set
  \<open>@ 3 1 0 5 7\<close> and nothing else. The code counts the exclamation mark as a marker
  (\<open>abc!\<close>, a variation of \<open>abc\<close>, scores 19 and not 16), and gives the capitalization
  bonus to a word whose rest holds digits (\<open>John1\<close> scores 33 and not 28), since
  \<open>islower\<close> looks at cased characters only.
\<close>

theorem score_differs_from_claim:
  "word_score 2026 ''abc!'' = Inr 19 \<and> claimed_score 2026 ''abc!'' = 16
   \<and> word_score 2026 ''John1'' = Inr 33 \<and> claimed_score 2026 ''John1'' = 28"
  by (simp add: word_score_def claimed_score_def ends_in_digits_def islower_def leet_count_def
      year_eval char_eval)

text \<open>
  C4, amended: for every word that is not empty and does not end in a newline, the score is
  \<^const>\<open>amended_score\<close>: the claimed formula with the exclamation mark in the marker set,
  and with the capitalization bonus given when the first character is upper-case and the
  rest holds at least one lower-case letter and no upper-case letter.
\<close>

theorem word_score_amended:
  assumes "word \<noteq> []" "last word \<noteq> CHR 0x0A"
  shows "word_score cy word = Inr (amended_score cy word)"
proof -
  obtain c cs where w: "word = c # cs" using assms(1) by (cases word) auto
  show ?thesis using assms(2) unfolding w
    by (simp add: word_score_def amended_score_def ends_in_digits_def islower_def leet_count_def)
qed

theorem word_score_amended_witness:
  "''John1!'' \<noteq> [] \<and> last ''John1!'' \<noteq> CHR 0x0A
   \<and> word_score 2026 ''John1!'' = Inr (amended_score 2026 ''John1!'')
   \<and> amended_score 2026 ''John1!'' = 25"
proof -
  have h: "''John1!'' \<noteq> []" "last ''John1!'' \<noteq> CHR 0x0A" by simp_all
  have "amended_score 2026 ''John1!'' = 25"
    by (simp add: amended_score_def year_eval char_eval)
  with h word_score_amended [OF h, of 2026] show ?thesis by simp
qed

subsection \<open>Case mapping\<close>

lemma is_upper_iff: "is_upper c \<longleftrightarrow> 65 \<le> (of_char c :: nat) \<and> (of_char c :: nat) \<le> 90"
  by (simp add: is_upper_def less_eq_char_def)

lemma is_lower_iff: "is_lower c \<longleftrightarrow> 97 \<le> (of_char c :: nat) \<and> (of_char c :: nat) \<le> 122"
  by (simp add: is_lower_def less_eq_char_def)

lemma is_high_upper_iff:
  "is_high_upper c \<longleftrightarrow>
     (192 \<le> (of_char c :: nat) \<and> (of_char c :: nat) \<le> 214)
     \<or> (216 \<le> (of_char c :: nat) \<and> (of_char c :: nat) \<le> 222)"
  by (simp add: is_high_upper_def Let_def)

lemma of_char_lower_char:
  "(of_char (lower_char c) :: nat) =
     (if is_upper c \<or> is_high_upper c then of_char c + 32 else of_char c)"
proof (cases "is_upper c \<or> is_high_upper c")
  case True
  then have "(of_char c :: nat) + 32 < 256" unfolding is_upper_iff is_high_upper_iff by arith
  with True show ?thesis by (simp add: lower_char_def)
qed (simp add: lower_char_def)

lemma of_char_upper_char:
  "(of_char (upper_char c) :: nat) = (if is_lower c then of_char c - 32 else of_char c)"
proof (cases "is_lower c")
  case True
  then have "(of_char c :: nat) - 32 < 256" unfolding is_lower_iff by arith
  with True show ?thesis by (simp add: upper_char_def)
qed (simp add: upper_char_def)

lemma lower_char_idem: "lower_char (lower_char c) = lower_char c"
proof -
  have "\<not> (is_upper (lower_char c) \<or> is_high_upper (lower_char c))"
    unfolding is_upper_iff [of "lower_char c"] is_high_upper_iff [of "lower_char c"]
      of_char_lower_char
    by (auto simp add: is_upper_iff is_high_upper_iff)
  then show ?thesis by (simp add: lower_char_def [of "lower_char c"])
qed

text \<open>An upper-cased character that lower-casing leaves alone was not a lower-case letter.\<close>

lemma upper_char_fixed:
  assumes "lower_char (upper_char c) = upper_char c"
  shows "upper_char c = c"
proof (cases "is_lower c")
  case True
  then have "65 \<le> (of_char c :: nat) - 32 \<and> (of_char c :: nat) - 32 \<le> 90"
    unfolding is_lower_iff by arith
  with True have u: "is_upper (upper_char c)"
    by (simp add: is_upper_iff [of "upper_char c"] of_char_upper_char)
  have "(of_char (lower_char (upper_char c)) :: nat) = of_char (upper_char c) + 32"
    using u by (simp add: of_char_lower_char)
  with assms show ?thesis by simp
qed (simp add: upper_char_def)

subsection \<open>Leetspeak\<close>

lemma lower_fixed: "x \<in> set (lower w) \<Longrightarrow> lower_char x = x"
  by (auto simp: lower_def lower_char_idem)

lemma subs_fixed: "(c, subs) \<in> set leet_substitutions \<Longrightarrow> x \<in> set subs \<Longrightarrow> lower_char x = x"
  by (auto simp: leet_substitutions_def char_eval)

lemma leet_chars_fixed:
  assumes "xs \<in> set (leet_chars w)" "x \<in> set xs"
  shows "lower_char x = x"
proof -
  from assms(1) obtain c where c: "c \<in> set (lower w)"
    and xs: "xs = (case map_of leet_substitutions c of Some subs \<Rightarrow> c # subs | None \<Rightarrow> [c])"
    by (auto simp: leet_chars_def)
  show ?thesis
  proof (cases "map_of leet_substitutions c")
    case None
    with xs assms(2) c lower_fixed show ?thesis by auto
  next
    case (Some subs)
    then have "(c, subs) \<in> set leet_substitutions" by (rule map_of_SomeD)
    with xs assms(2) c Some lower_fixed subs_fixed show ?thesis by auto
  qed
qed

lemma product_fixed:
  assumes "v \<in> set (product_lists (leet_chars w))" "x \<in> set v"
  shows "lower_char x = x"
proof -
  from assms(1) have a: "list_all2 (\<lambda>x ys. x \<in> set ys) v (leet_chars w)"
    by (simp add: product_lists_set)
  from assms(2) obtain i where i: "i < length v" "v ! i = x"
    by (auto simp: in_set_conv_nth)
  from a i(1) have "v ! i \<in> set (leet_chars w ! i)" by (rule list_all2_nthD)
  moreover from a i(1) have "leet_chars w ! i \<in> set (leet_chars w)"
    by (simp add: list_all2_lengthD)
  ultimately show ?thesis using i(2) leet_chars_fixed by blast
qed

lemma replace_fixed:
  assumes "(char, subs) \<in> set leet_substitutions" "sub \<in> set subs"
    "x \<in> set (replace char sub (lower w))"
  shows "lower_char x = x"
  using assms lower_fixed [of _ w] subs_fixed [of char subs sub]
  by (auto simp: replace_def split: if_splits)

text \<open>Capitalizing a string without upper-case letters cannot give another string
  without upper-case letters.\<close>

lemma capitalize_fixed:
  assumes v: "\<forall>x \<in> set v. lower_char x = x" and t: "\<forall>x \<in> set t. lower_char x = x"
    and eq: "capitalize v = t"
  shows "v = t"
proof (cases v)
  case Nil
  with eq show ?thesis by simp
next
  case (Cons c cs)
  from v Cons have "map lower_char cs = cs" by (simp add: map_idI)
  with eq Cons have t': "t = upper_char c # cs" by simp
  with t have "lower_char (upper_char c) = upper_char c" by simp
  then have "upper_char c = c" by (rule upper_char_fixed)
  with t' Cons show ?thesis by simp
qed

lemma leet_emit_differs:
  assumes f: "\<forall>x \<in> set lw. lower_char x = x" and m: "v \<in> set (leet_emit word lw)"
  shows "v \<noteq> lower word"
proof
  assume e: "v = lower word"
  from m have ne: "lw \<noteq> lower word"
    by (auto simp: leet_emit_def split: if_splits)
  from m have "v = lw \<or> v = capitalize lw"
    by (auto simp: leet_emit_def split: if_splits)
  then show False
  proof
    assume "v = lw"
    with e ne show False by simp
  next
    assume "v = capitalize lw"
    with e have c: "capitalize lw = lower word" by simp
    have "\<forall>x \<in> set (lower word). lower_char x = x" using lower_fixed by blast
    with f have "lw = lower word" using c by (rule capitalize_fixed)
    with ne show False by simp
  qed
qed

text \<open>
  C7. The leetspeak expander never returns the token it was given. Every emitted string,
  the capitalized forms included, differs from the lower-cased word, on the path of the
  cartesian product (at most six characters) and on the path of single substitutions; for
  a token that is already lower-cased this is the token itself.
\<close>

theorem leet_never_original:
  "\<forall>v \<in> set (generate_leet_variations word).
     v \<noteq> lower word \<and> (lower word = word \<longrightarrow> v \<noteq> word)"
proof
  fix v
  assume v: "v \<in> set (generate_leet_variations word)"
  have "v \<noteq> lower word"
  proof (cases "length (leet_chars word) \<le> 6")
    case True
    with v obtain lw where lw: "lw \<in> set (product_lists (leet_chars word))"
      and m: "v \<in> set (leet_emit word lw)"
      by (auto simp: generate_leet_variations_def)
    from lw have "\<forall>x \<in> set lw. lower_char x = x" using product_fixed by blast
    then show ?thesis using m by (rule leet_emit_differs)
  next
    case False
    with v obtain char subs sub where s: "(char, subs) \<in> set leet_substitutions" "sub \<in> set subs"
      and m: "v \<in> set (leet_emit word (replace char sub (lower word)))"
      by (auto simp: generate_leet_variations_def)
    from s have "\<forall>x \<in> set (replace char sub (lower word)). lower_char x = x"
      using replace_fixed by blast
    then show ?thesis using m by (rule leet_emit_differs)
  qed
  then show "v \<noteq> lower word \<and> (lower word = word \<longrightarrow> v \<noteq> word)" by auto
qed

lemma leet_bob:
  "generate_leet_variations ''bob'' =
     [''bo6'', ''Bo6'', ''b0b'', ''B0b'', ''b06'', ''B06'', ''6ob'', ''6ob'', ''6o6'', ''6o6'',
      ''60b'', ''60b'', ''606'', ''606'']"
  by (simp add: generate_leet_variations_def leet_chars_def leet_substitutions_def leet_emit_def
      char_eval)

lemma leet_football:
  "generate_leet_variations ''football'' =
     [''footb@ll'', ''Footb@ll'', ''footb4ll'', ''Footb4ll'', ''f00tball'', ''F00tball'',
      ''foo7ball'', ''Foo7ball'', ''footba11'', ''Footba11'', ''foot6all'', ''Foot6all'']"
  by (simp add: generate_leet_variations_def leet_chars_def leet_substitutions_def leet_emit_def
      replace_def char_eval)

theorem leet_never_original_witness:
  "list_all (\<lambda>v. v \<noteq> ''bob'') (generate_leet_variations ''bob'')
   \<and> list_all (\<lambda>v. v \<noteq> ''football'') (generate_leet_variations ''football'')
   \<and> ''B0b'' \<in> set (generate_leet_variations ''bob'')
   \<and> ''Foo7ball'' \<in> set (generate_leet_variations ''football'')"
proof -
  have l: "lower ''bob'' = ''bob''" "lower ''football'' = ''football''"
    by (simp_all add: char_eval)
  have "''B0b'' \<in> set (generate_leet_variations ''bob'')"
    "''Foo7ball'' \<in> set (generate_leet_variations ''football'')"
    by (simp_all add: leet_bob leet_football)
  with leet_never_original [of "''bob''"] leet_never_original [of "''football''"] l
  show ?thesis by (simp add: list_all_iff)
qed

subsection \<open>Dates\<close>

lemma date_fragments_no_match:
  "(\<forall>p \<in> set date_formats. findall p (strip d) = []) \<Longrightarrow> date_fragments d = []"
  by (simp add: date_fragments_def)

text \<open>
  C9. \<open>_process_dates\<close> returns numeric fragments only: every returned string is not empty
  and consists of digits. A date string that none of the five patterns matches adds
  nothing to the result. The function has no failing branch: stripping, matching and the
  final filter are defined on every string, so it is a total function to a list.
\<close>

theorem process_dates_digits:
  "(\<forall>w \<in> set (process_dates ds). w \<noteq> [] \<and> (\<forall>c \<in> set w. is_digit c))
   \<and> ((\<forall>p \<in> set date_formats. findall p (strip d) = [])
        \<longrightarrow> process_dates (ds1 @ d # ds2) = process_dates (ds1 @ ds2))"
  by (simp add: process_dates_def isdigit_def list_all_iff date_fragments_no_match)

lemma findall_letters: "p \<in> set date_formats \<Longrightarrow> findall p ''ab'' = []"
  by (auto simp add: date_formats_def char_eval eval_nat_numeral)

lemma process_dates_year: "process_dates [''1990''] = [''1990'']"
  by (simp add: process_dates_def date_fragments_def date_formats_def strip_def isdigit_def
      char_eval eval_nat_numeral)

theorem process_dates_digits_witness:
  "list_all (\<lambda>w. w \<noteq> [] \<and> list_all is_digit w) (process_dates [''1990''])
   \<and> list_all (\<lambda>p. findall p (strip ''ab'') = []) date_formats
   \<and> process_dates ([] @ ''ab'' # [''1990'']) = [''1990'']"
proof -
  have s: "strip ''ab'' = ''ab''" by (simp add: strip_def char_eval)
  have h: "\<forall>p \<in> set date_formats. findall p (strip ''ab'') = []"
    using findall_letters by (simp add: s)
  with process_dates_digits [of "[''1990'']" "''ab''" "[]" "[''1990'']"] process_dates_year
  show ?thesis by (simp add: list_all_iff)
qed

subsection \<open>Candidates are never empty\<close>

lemma length_capitalize: "length (capitalize s) = length s"
  by (cases s) simp_all

lemma variations_length:
  "w \<in> set (generate_word_variations cy word il iy) \<Longrightarrow> 3 \<le> length w"
  by (auto simp: generate_word_variations_def Let_def split: if_splits)

lemma combo_forms_length:
  assumes "cw1 \<noteq> []" "cw2 \<noteq> []" "w \<in> set (combo_forms cy iy cw1 cw2)"
  shows "2 \<le> length w"
proof -
  have "2 \<le> length cw1 + length cw2"
    using assms(1,2) by (cases cw1; cases cw2) simp_all
  with assms(3) show ?thesis
    by (auto simp: combo_forms_def Let_def length_capitalize split: if_splits)
qed

lemma combination_insertions_length:
  assumes "w \<in> set (combination_insertions cy words iy)"
  shows "2 \<le> length w"
proof -
  from assms obtain word1 word2 where "clean_word word1 \<noteq> []" "clean_word word2 \<noteq> []"
    "w \<in> set (combo_forms cy iy (clean_word word1) (clean_word word2))"
    by (auto simp: combination_insertions_def split: if_splits)
  then show ?thesis by (rule combo_forms_length)
qed

lemma generate_combinations_subset:
  assumes "valid_set_order so"
  shows "set (generate_combinations so cy ws il iy) \<subseteq> set (combination_insertions cy ws iy)"
proof -
  have "set (take 1000 (so (combination_insertions cy ws iy)))
      \<subseteq> set (so (combination_insertions cy ws iy))"
    by (rule set_take_subset)
  also have "\<dots> = set (combination_insertions cy ws iy)"
    using assms by (simp add: valid_set_order_def)
  finally show ?thesis by (simp add: generate_combinations_def)
qed

lemma wordlist_min_length:
  assumes "valid_set_order so" "w \<in> set (wordlist_insertions so cy k)"
  shows "2 \<le> length w"
proof -
  from assms(2) consider
    (v) word where "w \<in> set (generate_word_variations cy word (include_leet k) (include_years k))"
  | (c) "w \<in> set (generate_combinations so cy (take 5 (base_words k)) (include_leet k) (include_years k))"
    by (auto simp: wordlist_insertions_def split: if_splits)
  then show ?thesis
  proof cases
    case v
    then have "3 \<le> length w" by (rule variations_length)
    then show ?thesis by simp
  next
    case c
    with generate_combinations_subset [OF assms(1)]
    have "w \<in> set (combination_insertions cy (take 5 (base_words k)) (include_years k))" by blast
    then show ?thesis by (rule combination_insertions_length)
  qed
qed

subsection \<open>Truncation\<close>

lemma word_score_Inr: "w \<noteq> [] \<Longrightarrow> word_score cy w = Inr (score cy w)"
  by (cases w) (simp_all add: score_def word_score_def)

lemma scored_words_Inr:
  "\<forall>w \<in> set ws. w \<noteq> [] \<Longrightarrow> scored_words cy ws = Inr (map (\<lambda>w. (w, score cy w)) ws)"
  by (induction ws) (simp_all add: word_score_Inr)

text \<open>A stable sort of a list that is ordered by \<open>Q\<close> orders it by key first, and by \<open>Q\<close>
  among equal keys.\<close>

lemma insort_key_lex:
  assumes "sorted_wrt (\<lambda>a b. f a < f b \<or> (f a = f b \<and> Q a b)) ys" "\<forall>y \<in> set ys. Q x y"
  shows "sorted_wrt (\<lambda>a b. f a < f b \<or> (f a = f b \<and> Q a b)) (insort_key f x ys)"
  using assms
proof (induction ys)
  case Nil
  then show ?case by simp
next
  case (Cons y ys)
  show ?case
  proof (cases "f x \<le> f y")
    case True
    have "\<forall>z \<in> set (y # ys). f x < f z \<or> (f x = f z \<and> Q x z)"
    proof
      fix z assume z: "z \<in> set (y # ys)"
      then have "f y \<le> f z" using Cons.prems(1) by auto
      with True have "f x \<le> f z" by simp
      moreover have "Q x z" using Cons.prems(2) z by blast
      ultimately show "f x < f z \<or> (f x = f z \<and> Q x z)" by auto
    qed
    with True Cons.prems(1) show ?thesis by simp
  next
    case False
    then have "f y < f x" by simp
    moreover have "sorted_wrt (\<lambda>a b. f a < f b \<or> (f a = f b \<and> Q a b)) (insort_key f x ys)"
      using Cons by simp
    ultimately show ?thesis using False Cons.prems(1) by (auto simp: set_insort_key)
  qed
qed

lemma sort_key_lex:
  "sorted_wrt Q xs \<Longrightarrow> sorted_wrt (\<lambda>a b. f a < f b \<or> (f a = f b \<and> Q a b)) (sort_key f xs)"
proof (induction xs)
  case Nil
  then show ?case by simp
next
  case (Cons x xs)
  then have "\<forall>y \<in> set (sort_key f xs). Q x y" by simp
  with Cons show ?case by (simp add: insort_key_lex)
qed

lemma prioritize_words_top:
  assumes ne: "\<forall>w \<in> set F. w \<noteq> []" and so: "sorted F" and di: "distinct F"
    and n: "0 \<le> n" "nat n \<le> length F"
  shows "\<exists>ws. prioritize_words cy F n = Inr ws \<and> length ws = nat n \<and> set ws \<subseteq> set F
    \<and> (\<forall>kept \<in> set ws. \<forall>d \<in> set F - set ws.
          score cy d < score cy kept \<or> (score cy d = score cy kept \<and> kept < d))"
proof -
  define P where "P = map (\<lambda>w. (w, score cy w)) F"
  define L where "L = sort_key (\<lambda>x. - snd x) P"
  define R where "R = (\<lambda>a b :: string \<times> int. - snd a < - snd b \<or> (- snd a = - snd b \<and> fst a < fst b))"
  define ws where "ws = map fst (take (nat n) L)"
  have res: "prioritize_words cy F n = Inr ws"
    using ne n(1) by (simp add: prioritize_words_def scored_words_Inr slice_to_def ws_def L_def P_def)
  have setL: "set L = set P" by (simp add: L_def)
  have lenL: "length L = length F" by (simp add: L_def P_def)
  have len: "length ws = nat n" using n(2) lenL by (simp add: ws_def)
  have pair: "a = (fst a, score cy (fst a)) \<and> fst a \<in> set F" if "a \<in> set L" for a
    using that setL by (auto simp: P_def)
  have sub: "set ws \<subseteq> set F"
  proof
    fix w assume "w \<in> set ws"
    then obtain a where "a \<in> set (take (nat n) L)" "w = fst a" by (auto simp: ws_def)
    with pair [of a] show "w \<in> set F" by (auto dest: in_set_takeD)
  qed
  have "sorted_wrt (<) F" using so di by (simp add: strict_sorted_iff)
  then have "sorted_wrt (\<lambda>a b. fst a < fst b) P" by (simp add: P_def sorted_wrt_map)
  then have "sorted_wrt R L" unfolding R_def L_def by (rule sort_key_lex)
  then have "sorted_wrt R (take (nat n) L @ drop (nat n) L)" by simp
  then have split: "\<forall>a \<in> set (take (nat n) L). \<forall>b \<in> set (drop (nat n) L). R a b"
    unfolding sorted_wrt_append by blast
  have top: "score cy d < score cy kept \<or> (score cy d = score cy kept \<and> kept < d)"
    if k: "kept \<in> set ws" and d: "d \<in> set F - set ws" for kept d
  proof -
    from k obtain a where a: "a \<in> set (take (nat n) L)" "kept = fst a" by (auto simp: ws_def)
    then have a': "a = (kept, score cy kept)" using pair [of a] by (auto dest: in_set_takeD)
    from d have "(d, score cy d) \<in> set L" by (auto simp: setL P_def)
    then have "(d, score cy d) \<in> set (take (nat n) L) \<union> set (drop (nat n) L)"
      by (metis append_take_drop_id set_append)
    moreover have "(d, score cy d) \<notin> set (take (nat n) L)"
    proof
      assume "(d, score cy d) \<in> set (take (nat n) L)"
      then have "d \<in> set ws" by (force simp: ws_def)
      with d show False by simp
    qed
    ultimately have "(d, score cy d) \<in> set (drop (nat n) L)" by simp
    with split a(1) a' have "R (kept, score cy kept) (d, score cy d)" by blast
    then show ?thesis by (auto simp: R_def)
  qed
  from res len sub top show ?thesis by blast
qed

lemma valid_remdups: "valid_set_order remdups"
  by (simp add: valid_set_order_def)

lemma length_final_wordlist:
  "length (final_wordlist so cy k) = card (set (wordlist_insertions so cy k))"
  by (simp add: final_wordlist_def length_remdups_card_conv)

lemma identity_forms_in_variations:
  assumes "3 \<le> length (clean_word w)"
  shows "{clean_word w, capitalize (clean_word w), upper (clean_word w)}
    \<subseteq> set (generate_word_variations cy w il iy)"
  using assms by (auto simp add: generate_word_variations_def Let_def length_capitalize upper_def)

text \<open>
  C3. When the aggregate holds more than \<open>max_words\<close> words, for a positive \<open>max_words\<close>,
  \<open>generate_wordlist\<close> returns exactly \<open>max_words\<close> of them, and a kept word compares with
  a discarded one as follows: its score is higher, or the scores are equal and the kept
  word is the smaller string, that is, the one that comes first in the sorted aggregate.
  No candidate is empty, so scoring never raises.
\<close>

theorem truncation_keeps_best:
  assumes "valid_set_order so" "0 < max_words k"
    "max_words k < int (length (final_wordlist so cy k))"
  shows "\<exists>ws. generate_wordlist so cy k = Inr ws
    \<and> length ws = nat (max_words k)
    \<and> set ws \<subseteq> set (final_wordlist so cy k)
    \<and> (\<forall>kept \<in> set ws. \<forall>d \<in> set (final_wordlist so cy k) - set ws.
          \<exists>sk sd. word_score cy kept = Inr sk \<and> word_score cy d = Inr sd
            \<and> (sd < sk \<or> (sd = sk \<and> kept < d)))"
proof -
  let ?F = "final_wordlist so cy k"
  have ne: "\<forall>w \<in> set ?F. w \<noteq> []"
  proof
    fix w assume "w \<in> set ?F"
    then have "w \<in> set (wordlist_insertions so cy k)" by (simp add: set_final_wordlist)
    with assms(1) have "2 \<le> length w" by (rule wordlist_min_length)
    then show "w \<noteq> []" by auto
  qed
  have "sorted ?F" "distinct ?F" by (simp_all add: final_wordlist_def)
  moreover have "0 \<le> max_words k" "nat (max_words k) \<le> length ?F" using assms(2,3) by simp_all
  ultimately obtain ws where ws: "prioritize_words cy ?F (max_words k) = Inr ws"
    "length ws = nat (max_words k)" "set ws \<subseteq> set ?F"
    "\<forall>kept \<in> set ws. \<forall>d \<in> set ?F - set ws.
        score cy d < score cy kept \<or> (score cy d = score cy kept \<and> kept < d)"
    using prioritize_words_top [OF ne, of "max_words k" cy] by blast
  have g: "generate_wordlist so cy k = Inr ws"
    using assms(2,3) ws(1) by (simp add: generate_wordlist_def)
  have "\<exists>sk sd. word_score cy kept = Inr sk \<and> word_score cy d = Inr sd
            \<and> (sd < sk \<or> (sd = sk \<and> kept < d))"
    if "kept \<in> set ws" "d \<in> set ?F - set ws" for kept d
  proof -
    from that ws(3) ne have "kept \<noteq> []" "d \<noteq> []" by auto
    then have "word_score cy kept = Inr (score cy kept)" "word_score cy d = Inr (score cy d)"
      by (simp_all add: word_score_Inr)
    with ws(4) that show ?thesis by blast
  qed
  with g ws(2,3) show ?thesis by blast
qed

theorem truncation_keeps_best_witness:
  "valid_set_order remdups
   \<and> 0 < max_words ((defaults [''bob''])\<lparr>max_words := 2\<rparr>)
   \<and> max_words ((defaults [''bob''])\<lparr>max_words := 2\<rparr>)
       < int (length (final_wordlist remdups 2026 ((defaults [''bob''])\<lparr>max_words := 2\<rparr>)))
   \<and> (\<exists>ws. generate_wordlist remdups 2026 ((defaults [''bob''])\<lparr>max_words := 2\<rparr>) = Inr ws
         \<and> length ws = 2)"
proof -
  let ?k = "(defaults [''bob''])\<lparr>max_words := 2\<rparr>"
  have c: "clean_word ''bob'' = ''bob''" by (simp add: clean_word_def char_eval)
  have b: "base_words ?k = [''bob'']"
    by (simp add: base_words_def defaults_def stripped_def process_dates_def strip_def char_eval)
  have "{''bob'', capitalize ''bob'', upper ''bob''} \<subseteq> set (generate_word_variations 2026 ''bob'' True True)"
    using identity_forms_in_variations [of "''bob''" 2026 True True] by (simp add: c)
  then have "{''bob'', ''Bob'', ''BOB''} \<subseteq> set (generate_word_variations 2026 ''bob'' True True)"
    by (simp add: char_eval)
  then have "{''bob'', ''Bob'', ''BOB''} \<subseteq> set (wordlist_insertions remdups 2026 ?k)"
    by (simp add: wordlist_insertions_def b) (simp add: defaults_def)
  then have "card {''bob'', ''Bob'', ''BOB''} \<le> card (set (wordlist_insertions remdups 2026 ?k))"
    by (intro card_mono) simp_all
  then have l: "max_words ?k < int (length (final_wordlist remdups 2026 ?k))"
    by (simp add: length_final_wordlist)
  have p: "0 < max_words ?k" by simp
  from truncation_keeps_best [OF valid_remdups p l] valid_remdups p l show ?thesis
    by auto
qed

subsection \<open>How many candidates there are\<close>

lemma length_concat_le:
  "(\<And>x. x \<in> set xs \<Longrightarrow> length (f x) \<le> c) \<Longrightarrow> length (concat (map f xs)) \<le> c * length xs"
proof (induction xs)
  case Nil
  then show ?case by simp
next
  case (Cons x xs)
  then have "length (f x) \<le> c" "length (concat (map f xs)) \<le> c * length xs" by simp_all
  then show ?case by simp
qed

lemma length_leet_emit: "length (leet_emit w lw) \<le> 2"
  by (simp add: leet_emit_def)

lemma length_product_le:
  "(\<And>xs. xs \<in> set xss \<Longrightarrow> length xs \<le> 3) \<Longrightarrow> length (product_lists xss) \<le> 3 ^ length xss"
proof (induction xss)
  case Nil
  then show ?case by simp
next
  case (Cons xs xss)
  then have a: "length xs \<le> 3" and b: "length (product_lists xss) \<le> 3 ^ length xss" by simp_all
  have "length (product_lists (xs # xss)) = length xs * length (product_lists xss)"
    by (simp add: length_concat comp_def sum_list_triv)
  also have "\<dots> \<le> 3 * 3 ^ length xss" using a b by (rule mult_le_mono)
  finally show ?case by simp
qed

lemma length_leet_chars_elem: "xs \<in> set (leet_chars w) \<Longrightarrow> length xs \<le> 3"
  by (auto simp: leet_chars_def leet_substitutions_def split: option.splits if_splits)

lemma length_leet_variations: "length (generate_leet_variations w) \<le> 1458"
proof (cases "length (leet_chars w) \<le> 6")
  case True
  have "length (product_lists (leet_chars w)) \<le> 3 ^ length (leet_chars w)"
    using length_leet_chars_elem by (rule length_product_le)
  also have "\<dots> \<le> (3::nat) ^ 6" using True by (intro power_increasing) simp_all
  finally have p: "length (product_lists (leet_chars w)) \<le> 729" by simp
  have "length (concat (map (leet_emit w) (product_lists (leet_chars w))))
      \<le> 2 * length (product_lists (leet_chars w))"
    by (rule length_concat_le) (rule length_leet_emit)
  with p True show ?thesis by (simp add: generate_leet_variations_def)
next
  case False
  have "length (case p of (char, subs) \<Rightarrow>
          concat (map (\<lambda>sub. leet_emit w (replace char sub (lower w))) subs)) \<le> 4"
    if "p \<in> set leet_substitutions" for p
  proof -
    obtain char subs where p: "p = (char, subs)" by (cases p)
    with that have "length subs \<le> 2" by (auto simp: leet_substitutions_def)
    moreover have "length (concat (map (\<lambda>sub. leet_emit w (replace char sub (lower w))) subs))
        \<le> 2 * length subs"
      by (rule length_concat_le) (rule length_leet_emit)
    ultimately show ?thesis by (simp add: p)
  qed
  then have "length (concat (map (\<lambda>(char, subs).
      concat (map (\<lambda>sub. leet_emit w (replace char sub (lower w))) subs)) leet_substitutions))
      \<le> 4 * length leet_substitutions"
    by (rule length_concat_le)
  also have "\<dots> = 36" by (simp add: leet_substitutions_def)
  finally show ?thesis using False by (simp add: generate_leet_variations_def)
qed

lemma length_years: "length (years cy) = 55"
  by (simp add: years_def)

lemma length_variations: "length (generate_word_variations cy w il iy) \<le> 1693"
proof -
  let ?cw = "clean_word w"
  have y: "length (concat (map (\<lambda>year. [?cw @ year, capitalize ?cw @ year]) (years cy))) \<le> 110"
    using length_concat_le [of "years cy" "\<lambda>year. [?cw @ year, capitalize ?cw @ year]" 2]
    by (simp add: length_years)
  have l: "length (generate_leet_variations ?cw) \<le> 1458" by (rule length_leet_variations)
  have p: "length (concat (map (\<lambda>prefix. concat (map (\<lambda>suffix.
               if prefix \<noteq> [] \<or> suffix \<noteq> []
               then [prefix @ ?cw @ suffix, prefix @ capitalize ?cw @ suffix]
               else []) suffixes)) prefixes)) = 98"
    by (simp add: prefixes_def suffixes_def)
  have n: "length (concat (map (\<lambda>num. [?cw @ num, capitalize ?cw @ num, num @ ?cw]) common_numbers)) = 24"
    by (simp add: common_numbers_def)
  show ?thesis
  proof (cases "?cw = []")
    case True
    then show ?thesis by (simp add: generate_word_variations_def)
  next
    case False
    have "length (generate_word_variations cy w il iy)
      \<le> length ([?cw, capitalize ?cw, upper ?cw]
         @ concat (map (\<lambda>prefix. concat (map (\<lambda>suffix.
               if prefix \<noteq> [] \<or> suffix \<noteq> []
               then [prefix @ ?cw @ suffix, prefix @ capitalize ?cw @ suffix]
               else []) suffixes)) prefixes)
         @ concat (map (\<lambda>num. [?cw @ num, capitalize ?cw @ num, num @ ?cw]) common_numbers)
         @ (if iy
            then concat (map (\<lambda>year. [?cw @ year, capitalize ?cw @ year]) (years cy))
            else [])
         @ (if il then generate_leet_variations ?cw else []))"
      using False unfolding generate_word_variations_def Let_def
      by (simp only: if_False length_filter_le)
    also have "\<dots> \<le> 1693"
      using y l by (simp only: length_append p n) simp
    finally show ?thesis .
  qed
qed

lemma length_all_variations:
  "length (concat (map (\<lambda>word. generate_word_variations cy word il iy) ws)) \<le> 1693 * length ws"
  by (rule length_concat_le) (rule length_variations)

lemma length_wordlist_insertions:
  assumes "length (base_words k) \<le> 5"
  shows "length (wordlist_insertions so cy k) \<le> 9465"
proof -
  let ?ws = "filter (\<lambda>word. word \<noteq> []) (base_words k)"
  have "length ?ws \<le> 5" using assms length_filter_le [of _ "base_words k"] by (rule order_trans [rotated])
  then have "1693 * length ?ws \<le> 8465" by simp
  with length_all_variations [of cy "include_leet k" "include_years k" ?ws]
  have v: "length (concat (map (\<lambda>word. generate_word_variations cy word (include_leet k) (include_years k)) ?ws)) \<le> 8465"
    by simp
  have c: "length (generate_combinations so cy ws il iy) \<le> 1000" for ws il iy
    by (simp add: generate_combinations_def)
  show ?thesis
    using v c [of "take 5 (base_words k)" "include_leet k" "include_years k"]
    by (simp add: wordlist_insertions_def)
qed

text \<open>With at most five base words and the default ceiling nothing is truncated.\<close>

lemma no_truncation:
  assumes "length (base_words k) \<le> 5" "9465 \<le> max_words k"
  shows "generate_wordlist so cy k = Inr (final_wordlist so cy k)"
proof -
  have "length (final_wordlist so cy k) \<le> length (wordlist_insertions so cy k)"
    by (simp add: final_wordlist_def)
  also have "\<dots> \<le> 9465" using assms(1) by (rule length_wordlist_insertions)
  finally show ?thesis using assms(2) by (simp add: generate_wordlist_def)
qed

text \<open>A set of at most 1000 elements passes the cap whole, whatever its iteration order.\<close>

lemma cap_identity:
  assumes "valid_set_order so" "card (set xs) \<le> 1000"
  shows "set (take 1000 (so xs)) = set xs"
proof -
  from assms(1) have d: "distinct (so xs)" and s: "set (so xs) = set xs"
    by (simp_all add: valid_set_order_def)
  from d have "length (so xs) = card (set (so xs))" by (simp add: distinct_card)
  with s assms(2) have "length (so xs) \<le> 1000" by simp
  then show ?thesis using s by simp
qed

lemma length_pair_combinations: "length (combination_insertions cy [a, b] iy) \<le> 140"
  by (simp add: combination_insertions_def enumerate_eq_zip combo_forms_def separators_def
      common_numbers_def Let_def length_years)

text \<open>What a call with two names returns: nothing is truncated at the default ceiling,
  and every combination of the two is in the result.\<close>

lemma two_names:
  assumes so: "valid_set_order so" and b: "base_words k = [a, b]" and m: "max_words k = 10000"
    and ic: "include_combinations k"
    and c: "clean_word a \<noteq> []" "clean_word b \<noteq> []"
    and w: "w \<in> set (combo_forms cy (include_years k) (clean_word a) (clean_word b))"
  shows "\<exists>ws. generate_wordlist so cy k = Inr ws \<and> w \<in> set ws"
proof -
  let ?C = "combination_insertions cy [a, b] (include_years k)"
  have g: "generate_wordlist so cy k = Inr (final_wordlist so cy k)"
    using b m by (intro no_truncation) simp_all
  have "card (set ?C) \<le> length ?C" by (rule card_length)
  also have "\<dots> \<le> 140" by (rule length_pair_combinations)
  finally have "set (take 1000 (so ?C)) = set ?C" using so by (intro cap_identity) simp_all
  moreover have "w \<in> set ?C"
    using w c by (simp add: combination_insertions_def enumerate_eq_zip)
  ultimately have "w \<in> set (generate_combinations so cy (take 5 (base_words k)) (include_leet k) (include_years k))"
    by (simp add: generate_combinations_def b)
  then have "w \<in> set (wordlist_insertions so cy k)"
    using ic b by (simp add: wordlist_insertions_def)
  then show ?thesis using g by (simp add: set_final_wordlist)
qed

subsection \<open>Two names\<close>

lemma base_words_defaults:
  "base_words ((defaults ns)\<lparr>include_years := iy, include_leet := il\<rparr>) = stripped ns"
  by (simp add: base_words_def defaults_def stripped_def process_dates_def)

text \<open>
  C6. With the names \<open>john\<close> and \<open>smith\<close>, combinations on and the default ceiling, the
  result holds \<open>john_smith\<close>, \<open>John_smith\<close> and \<open>john_smith123\<close>, whatever the two other
  flags, the year and the iteration order of the combination set. The capitalized form is
  that of the whole combination: its second word stays in lower case.
\<close>

theorem scenario_john_smith:
  assumes "valid_set_order so"
  shows "\<exists>ws. generate_wordlist so cy
            ((defaults [''john'', ''smith''])\<lparr>include_years := iy, include_leet := il\<rparr>) = Inr ws
    \<and> ''john_smith'' \<in> set ws \<and> ''John_smith'' \<in> set ws \<and> ''john_smith123'' \<in> set ws
    \<and> capitalize ''john_smith'' = ''John_smith''"
proof -
  let ?k = "(defaults [''john'', ''smith''])\<lparr>include_years := iy, include_leet := il\<rparr>"
  have b: "base_words ?k = [''john'', ''smith'']"
    by (simp add: base_words_defaults stripped_def strip_def char_eval)
  have m: "max_words ?k = 10000" "include_combinations ?k" "include_years ?k = iy"
    by (simp_all add: defaults_def)
  have c: "clean_word ''john'' = ''john''" "clean_word ''smith'' = ''smith''"
    by (simp_all add: clean_word_def char_eval)
  have cap: "capitalize ''john_smith'' = ''John_smith''" by (simp add: char_eval)
  have f: "''john_smith'' \<in> set (combo_forms cy iy ''john'' ''smith'')"
    "''John_smith'' \<in> set (combo_forms cy iy ''john'' ''smith'')"
    "''john_smith123'' \<in> set (combo_forms cy iy ''john'' ''smith'')"
    by (simp_all add: combo_forms_def separators_def common_numbers_def Let_def char_eval)
  have c': "clean_word ''john'' \<noteq> []" "clean_word ''smith'' \<noteq> []" by (simp_all add: c)
  have r: "\<exists>ws. generate_wordlist so cy ?k = Inr ws \<and> w \<in> set ws"
    if "w \<in> set (combo_forms cy iy ''john'' ''smith'')" for w
  proof -
    from that have "w \<in> set (combo_forms cy (include_years ?k) (clean_word ''john'') (clean_word ''smith''))"
      by (simp add: c m(3))
    with assms b m(1,2) c' show ?thesis by (rule two_names)
  qed
  from r [OF f(1)] r [OF f(2)] r [OF f(3)] cap show ?thesis by auto
qed

theorem scenario_john_smith_witness:
  "valid_set_order remdups
   \<and> (\<exists>ws. generate_wordlist remdups 2026 (defaults [''john'', ''smith'']) = Inr ws
        \<and> ''john_smith'' \<in> set ws \<and> ''John_smith'' \<in> set ws \<and> ''john_smith123'' \<in> set ws)"
proof -
  have "(defaults [''john'', ''smith''])\<lparr>include_years := True, include_leet := True\<rparr>
      = defaults [''john'', ''smith'']"
    by (simp add: defaults_def)
  with scenario_john_smith [OF valid_remdups, of 2026 True True] valid_remdups
  show ?thesis by auto
qed

subsection \<open>The shortest candidates\<close>

text \<open>
  C1. Every returned word is to have three characters at least. The variations of one
  word are filtered by length, the combinations of two words are not: with the names \<open>a\<close>
  and \<open>b\<close> and every option at its default, the result holds the two-character word
  \<open>ab\<close>, whatever the year and the iteration order of the combination set. What holds
  of every candidate is a length of two at least (\<open>wordlist_min_length\<close>).
\<close>

theorem short_combination_returned:
  assumes "valid_set_order so"
  shows "\<exists>ws. generate_wordlist so cy (defaults [''a'', ''b'']) = Inr ws
    \<and> ''ab'' \<in> set ws \<and> length ''ab'' = 2"
proof -
  let ?k = "defaults [''a'', ''b'']"
  have b: "base_words ?k = [''a'', ''b'']"
    by (simp add: base_words_def defaults_def stripped_def process_dates_def strip_def char_eval)
  have m: "max_words ?k = 10000" "include_combinations ?k" "include_years ?k = True"
    by (simp_all add: defaults_def)
  have c: "clean_word ''a'' = ''a''" "clean_word ''b'' = ''b''"
    by (simp_all add: clean_word_def char_eval)
  have f: "''ab'' \<in> set (combo_forms cy True ''a'' ''b'')"
    by (simp add: combo_forms_def separators_def Let_def)
  have c': "clean_word ''a'' \<noteq> []" "clean_word ''b'' \<noteq> []" by (simp_all add: c)
  have f': "''ab'' \<in> set (combo_forms cy (include_years ?k) (clean_word ''a'') (clean_word ''b''))"
    using f by (simp add: c m(3))
  have "\<exists>ws. generate_wordlist so cy ?k = Inr ws \<and> ''ab'' \<in> set ws"
    using assms b m(1,2) c' f' by (rule two_names)
  then show ?thesis by simp
qed

theorem short_combination_returned_witness:
  "valid_set_order remdups
   \<and> (\<exists>ws. generate_wordlist remdups 2026 (defaults [''a'', ''b'']) = Inr ws
        \<and> ''ab'' \<in> set ws \<and> length ''ab'' = 2)"
  using short_combination_returned [OF valid_remdups, of 2026] valid_remdups by simp

subsection \<open>The cap on combinations and the iteration order\<close>

lemma valid_order_first: "valid_set_order (order_first w)"
  by (auto simp: valid_set_order_def order_first_def distinct_removeAll)

lemma valid_order_last: "valid_set_order (order_last w)"
  by (auto simp: valid_set_order_def order_last_def distinct_removeAll)

lemma in_take_order_first: "w \<in> set xs \<Longrightarrow> w \<in> set (take 1000 (order_first w xs))"
  by (simp add: order_first_def)

lemma not_in_take_order_last:
  assumes "1001 \<le> card (set xs)"
  shows "w \<notin> set (take 1000 (order_last w xs))"
proof (cases "w \<in> set xs")
  case False
  then have "w \<notin> set (remdups xs)" by simp
  then have "w \<notin> set (take 1000 (remdups xs))" by (auto dest: in_set_takeD)
  with False show ?thesis by (simp add: order_last_def)
next
  case True
  let ?ys = "removeAll w (remdups xs)"
  have "distinct ?ys" by (simp add: distinct_removeAll)
  then have "card (set ?ys) = length ?ys" by (rule distinct_card)
  moreover have "set ?ys = set xs - {w}" by simp
  moreover have "card (set xs - {w}) = card (set xs) - 1" using True by simp
  ultimately have "length ?ys = card (set xs) - 1" by (simp only:)
  with assms have "1000 \<le> length ?ys" by simp
  then have "take 1000 (?ys @ [w]) = take 1000 ?ys" by simp
  moreover have "w \<notin> set (take 1000 ?ys)" by (auto dest: in_set_takeD)
  ultimately show ?thesis using True by (simp add: order_last_def)
qed

text \<open>Every form of every ordered pair of two different words is among the insertions.\<close>

lemma pair_forms_inserted:
  assumes "a \<in> set ws" "b \<in> set ws" "a \<noteq> b" "clean_word a \<noteq> []" "clean_word b \<noteq> []"
  shows "set (combo_forms cy iy (clean_word a) (clean_word b))
    \<subseteq> set (combination_insertions cy ws iy)"
proof -
  from assms(1) obtain i where i: "i < length ws" "ws ! i = a" by (auto simp: in_set_conv_nth)
  from assms(2) obtain j where j: "j < length ws" "ws ! j = b" by (auto simp: in_set_conv_nth)
  from i j assms(3) have ne: "i \<noteq> j" by auto
  from i have ia: "(i, a) \<in> set (enumerate 0 ws)" by (simp add: in_set_enumerate_eq)
  from j have jb: "(j, b) \<in> set (enumerate 0 ws)" by (simp add: in_set_enumerate_eq)
  show ?thesis
  proof
    fix w assume w: "w \<in> set (combo_forms cy iy (clean_word a) (clean_word b))"
    have "w \<in> set (case (j, b) of (j, word2) \<Rightarrow>
         if i \<noteq> j
         then (if clean_word a = [] \<or> clean_word word2 = [] then []
               else combo_forms cy iy (clean_word a) (clean_word word2))
         else [])"
      using w ne assms(4,5) by simp
    with jb have "w \<in> set (concat (map (\<lambda>(j, word2).
         if i \<noteq> j
         then (if clean_word a = [] \<or> clean_word word2 = [] then []
               else combo_forms cy iy (clean_word a) (clean_word word2))
         else []) (enumerate 0 ws)))"
      unfolding set_concat set_map by blast
    then have "w \<in> set (case (i, a) of (i, word1) \<Rightarrow> concat (map (\<lambda>(j, word2).
         if i \<noteq> j
         then (if clean_word word1 = [] \<or> clean_word word2 = [] then []
               else combo_forms cy iy (clean_word word1) (clean_word word2))
         else []) (enumerate 0 ws)))"
      by simp
    with ia show "w \<in> set (combination_insertions cy ws iy)"
      unfolding combination_insertions_def set_concat set_map by blast
  qed
qed

lemma suffixed_form:
  assumes "sep \<in> set separators"
    "t \<in> set ([] # take 3 common_numbers @ take 5 (years cy))"
  shows "a @ sep @ b @ t \<in> set (combo_forms cy True a b)"
proof -
  from assms(2) have "a @ sep @ b @ t \<in> set (let combo = a @ sep @ b in
                     [combo, capitalize combo]
                     @ map (\<lambda>num. combo @ num) (take 3 common_numbers)
                     @ map (\<lambda>year. combo @ year) (take 5 (years cy)))"
    by (auto simp: Let_def)
  with assms(1) show ?thesis
    unfolding combo_forms_def set_concat set_map by auto
qed

text \<open>Two combinations of words of one length that start with a lower-case letter are
  equal only if they are built from the same parts.\<close>

lemma separator_chars:
  "\<not> is_lower CHR ''_''" "\<not> is_lower CHR ''-''" "\<not> is_lower CHR ''.''"
  "\<not> is_lower CHR ''!''" "\<not> is_lower CHR ''@''" "\<not> is_lower CHR ''#''"
  by (simp_all add: is_lower_def)

lemma separators_shape:
  assumes "sep \<in> set separators"
  shows "sep = [] \<or> (\<exists>x. sep = [x] \<and> \<not> is_lower x)"
proof -
  from assms consider "sep = []" | "sep = ''_''" | "sep = ''-''" | "sep = ''.''"
    | "sep = ''!''" | "sep = ''@''" | "sep = ''#''"
    by (auto simp: separators_def)
  then show ?thesis using separator_chars by cases blast+
qed

lemma combo_inj:
  assumes la: "length a = n" "length a' = n" and lb: "length b = n" "length b' = n"
    and n: "0 < n" and hb: "is_lower (hd b)" "is_lower (hd b')"
    and s: "sep \<in> set separators" "sep' \<in> set separators"
    and eq: "a @ sep @ b @ t = a' @ sep' @ b' @ t'"
  shows "a = a' \<and> sep = sep' \<and> b = b' \<and> t = t'"
proof -
  from la eq have a: "a = a'" and r: "sep @ b @ t = sep' @ b' @ t'" by simp_all
  from lb n obtain c bs c' bs' where b: "b = c # bs" "b' = c' # bs'"
    by (cases b; cases b') auto
  with hb have low: "is_lower c" "is_lower c'" by simp_all
  from separators_shape [OF s(1)] separators_shape [OF s(2)] r b low
  have "sep = sep' \<and> b @ t = b' @ t'" by auto
  moreover from this lb have "b = b' \<and> t = t'" by simp
  ultimately show ?thesis using a by simp
qed

lemma five_names_shape:
  "w \<in> set five_names \<Longrightarrow> clean_word w = w \<and> length w = 4 \<and> is_lower (hd w)"
  by (auto simp: five_names_def clean_word_def char_eval)

lemma five_names_card: "1260 \<le> card (set (combination_insertions 2026 five_names True))"
proof -
  define PL where "PL = filter (\<lambda>(a, b). a \<noteq> b) (List.product five_names five_names)"
  define T where "T = [] # take 3 common_numbers @ take 5 (years 2026)"
  define DL where "DL = List.product PL (List.product separators T)"
  define f where "f = (\<lambda>((a, b), (sep, t)). a @ sep @ b @ (t :: string))"
  have dT: "distinct T"
    by (simp add: T_def common_numbers_def year_eval char_eval)
  have lT: "length T = 9" by (simp add: T_def common_numbers_def length_years)
  have dS: "distinct separators" "length separators = 7" by (simp_all add: separators_def)
  have dW: "distinct five_names" by (simp add: five_names_def)
  have lP: "length PL = 20" by (simp add: PL_def five_names_def)
  have dD: "distinct DL"
    unfolding DL_def PL_def by (intro distinct_product distinct_filter dW dS dT)
  have lD: "length DL = 1260" by (simp add: DL_def lP lT dS(2))
  have P: "a \<in> set five_names \<and> b \<in> set five_names \<and> a \<noteq> b \<and> sep \<in> set separators \<and> t \<in> set T"
    if "((a, b), (sep, t)) \<in> set DL" for a b sep t
    using that by (auto simp: DL_def PL_def)
  have inj: "inj_on f (set DL)"
  proof (rule inj_onI)
    fix x y assume x: "x \<in> set DL" and y: "y \<in> set DL" and e: "f x = f y"
    obtain a b sep t where x': "x = ((a, b), (sep, t))" by (metis surj_pair)
    obtain a' b' sep' t' where y': "y = ((a', b'), (sep', t'))" by (metis surj_pair)
    from x x' have px: "a \<in> set five_names" "b \<in> set five_names" "sep \<in> set separators"
      using P by blast+
    from y y' have py: "a' \<in> set five_names" "b' \<in> set five_names" "sep' \<in> set separators"
      using P by blast+
    from e have "a @ sep @ b @ t = a' @ sep' @ b' @ t'" by (simp add: f_def x' y')
    with five_names_shape [OF px(1)] five_names_shape [OF px(2)]
      five_names_shape [OF py(1)] five_names_shape [OF py(2)] px(3) py(3)
    have "a = a' \<and> sep = sep' \<and> b = b' \<and> t = t'"
      by (intro combo_inj [where n = 4]) simp_all
    then show "x = y" by (simp add: x' y')
  qed
  have sub: "set (map f DL) \<subseteq> set (combination_insertions 2026 five_names True)"
  proof
    fix w assume "w \<in> set (map f DL)"
    then obtain a b sep t where d: "((a, b), (sep, t)) \<in> set DL" and w: "w = a @ sep @ b @ t"
      by (auto simp: f_def)
    from P [OF d] have p: "a \<in> set five_names" "b \<in> set five_names" "a \<noteq> b"
      "sep \<in> set separators" "t \<in> set T" by simp_all
    from five_names_shape [OF p(1)] five_names_shape [OF p(2)]
    have c: "clean_word a = a" "clean_word b = b" "a \<noteq> []" "b \<noteq> []" by auto
    from p(4,5) have "w \<in> set (combo_forms 2026 True a b)"
      unfolding w T_def by (rule suffixed_form)
    with pair_forms_inserted [OF p(1,2,3), of 2026 True] c show
      "w \<in> set (combination_insertions 2026 five_names True)" by auto
  qed
  have "distinct (map f DL)" using dD inj by (simp add: distinct_map)
  then have "card (set (map f DL)) = length (map f DL)" by (rule distinct_card)
  then have "card (set (map f DL)) = 1260" using lD by (simp only: length_map)
  moreover have "card (set (map f DL)) \<le> card (set (combination_insertions 2026 five_names True))"
    using sub by (intro card_mono) simp_all
  ultimately show ?thesis by simp
qed

lemmas gen_eval = generate_word_variations_def clean_word_def prefixes_def suffixes_def
  common_numbers_def generate_leet_variations_def leet_chars_def leet_substitutions_def
  leet_emit_def Let_def

lemma annabeth_not_variation_anna:
  "''annabeth'' \<notin> set (generate_word_variations 2026 ''anna'' True True)"
  by (simp add: gen_eval year_eval char_eval)

lemma annabeth_not_variation_beth:
  "''annabeth'' \<notin> set (generate_word_variations 2026 ''beth'' True True)"
  by (simp add: gen_eval year_eval char_eval)

lemma annabeth_not_variation_carl:
  "''annabeth'' \<notin> set (generate_word_variations 2026 ''carl'' True True)"
  by (simp add: gen_eval year_eval char_eval)

lemma annabeth_not_variation_dave:
  "''annabeth'' \<notin> set (generate_word_variations 2026 ''dave'' True True)"
  by (simp add: gen_eval year_eval char_eval)

lemma annabeth_not_variation_emma:
  "''annabeth'' \<notin> set (generate_word_variations 2026 ''emma'' True True)"
  by (simp add: gen_eval year_eval char_eval)

lemma bob2030_not_variation:
  "''bob2030'' \<notin> set (generate_word_variations 2025 ''bob'' True True)"
  by (simp add: gen_eval year_eval char_eval)

lemma bob2030_variation:
  "''bob2030'' \<in> set (generate_word_variations 2026 ''bob'' True True)"
  by (simp add: gen_eval year_eval char_eval)

lemma base_words_five: "base_words (defaults five_names) = five_names"
  by (simp add: base_words_def defaults_def stripped_def process_dates_def strip_def
      five_names_def char_eval)

lemma annabeth_inserted: "''annabeth'' \<in> set (combination_insertions 2026 five_names True)"
proof -
  have "''anna'' @ [] @ ''beth'' @ [] \<in> set (combo_forms 2026 True ''anna'' ''beth'')"
    by (rule suffixed_form) (simp_all add: separators_def)
  moreover have "set (combo_forms 2026 True (clean_word ''anna'') (clean_word ''beth''))
      \<subseteq> set (combination_insertions 2026 five_names True)"
    by (rule pair_forms_inserted) (simp_all add: five_names_def clean_word_def char_eval)
  moreover have "clean_word ''anna'' = ''anna''" "clean_word ''beth'' = ''beth''"
    by (simp_all add: clean_word_def char_eval)
  ultimately show ?thesis by auto
qed

lemma five_names_insertions:
  "set (wordlist_insertions so 2026 (defaults five_names)) =
     (\<Union>n \<in> set five_names. set (generate_word_variations 2026 n True True))
     \<union> set (take 1000 (so (combination_insertions 2026 five_names True)))"
  by (simp add: wordlist_insertions_def base_words_five generate_combinations_def)
     (auto simp add: defaults_def five_names_def)

lemma five_names_first:
  "''annabeth'' \<in> set (wordlist_insertions (order_first ''annabeth'') 2026 (defaults five_names))"
  using in_take_order_first [OF annabeth_inserted] by (simp add: five_names_insertions)

lemma five_names_last:
  "''annabeth'' \<notin> set (wordlist_insertions (order_last ''annabeth'') 2026 (defaults five_names))"
proof -
  have "1001 \<le> card (set (combination_insertions 2026 five_names True))"
    using five_names_card by simp
  then have "''annabeth'' \<notin> set (take 1000 (order_last ''annabeth''
      (combination_insertions 2026 five_names True)))"
    by (rule not_in_take_order_last)
  moreover have "''annabeth'' \<notin> (\<Union>n \<in> set five_names. set (generate_word_variations 2026 n True True))"
    using annabeth_not_variation_anna annabeth_not_variation_beth annabeth_not_variation_carl
      annabeth_not_variation_dave annabeth_not_variation_emma
    by (simp add: five_names_def)
  ultimately show ?thesis by (simp add: five_names_insertions)
qed

lemma five_names_result:
  "generate_wordlist so 2026 (defaults five_names) = Inr (final_wordlist so 2026 (defaults five_names))"
  by (rule no_truncation) (simp_all add: base_words_five, simp_all add: five_names_def defaults_def)

lemma bob_result:
  "generate_wordlist so cy (defaults [''bob'']) = Inr (final_wordlist so cy (defaults [''bob'']))
   \<and> set (final_wordlist so cy (defaults [''bob''])) = set (generate_word_variations cy ''bob'' True True)"
proof -
  have b: "base_words (defaults [''bob'']) = [''bob'']"
    by (simp add: base_words_def defaults_def stripped_def process_dates_def strip_def char_eval)
  have "generate_wordlist so cy (defaults [''bob'']) = Inr (final_wordlist so cy (defaults [''bob'']))"
    by (rule no_truncation) (simp_all add: b, simp add: defaults_def)
  moreover have "set (wordlist_insertions so cy (defaults [''bob''])) = set (generate_word_variations cy ''bob'' True True)"
    by (simp add: wordlist_insertions_def b generate_combinations_def) (simp add: defaults_def)
  ultimately show ?thesis by (simp add: set_final_wordlist)
qed

text \<open>
  C2, as stated: two calls with the same seed lists, flags and ceiling return the same
  list, the cap of 1000 combinations and the year window depending on the call's inputs
  only. With five names there are 1260 combinations at least, and the cap keeps the first
  1000 in the iteration order of the set: an order that lists \<open>annabeth\<close> first returns
  it, an order that lists it last does not. The year is no input of the call either: a
  generator built in 2026 returns \<open>bob2030\<close> for the name \<open>bob\<close>, one built in 2025
  does not.
\<close>

theorem result_depends_on_order_and_clock:
  "valid_set_order (order_first ''annabeth'') \<and> valid_set_order (order_last ''annabeth'')
   \<and> generate_wordlist (order_first ''annabeth'') 2026 (defaults five_names)
       \<noteq> generate_wordlist (order_last ''annabeth'') 2026 (defaults five_names)
   \<and> generate_wordlist remdups 2025 (defaults [''bob''])
       \<noteq> generate_wordlist remdups 2026 (defaults [''bob''])"
proof -
  have "final_wordlist (order_first ''annabeth'') 2026 (defaults five_names)
      \<noteq> final_wordlist (order_last ''annabeth'') 2026 (defaults five_names)"
    using five_names_first five_names_last by (metis set_final_wordlist)
  then have o: "generate_wordlist (order_first ''annabeth'') 2026 (defaults five_names)
       \<noteq> generate_wordlist (order_last ''annabeth'') 2026 (defaults five_names)"
    by (simp add: five_names_result)
  have "final_wordlist remdups 2025 (defaults [''bob''])
      \<noteq> final_wordlist remdups 2026 (defaults [''bob''])"
    using bob2030_not_variation bob2030_variation bob_result [of remdups 2025]
      bob_result [of remdups 2026] by metis
  then have "generate_wordlist remdups 2025 (defaults [''bob''])
       \<noteq> generate_wordlist remdups 2026 (defaults [''bob''])"
    by (simp add: bob_result)
  with o valid_order_first valid_order_last show ?thesis by simp
qed

text \<open>
  C2, amended: for one year read by the constructor, two calls with the same seed lists,
  flags and ceiling return the same list under any two iteration orders of the
  combination set, provided combinations are off or the set holds at most 1000 strings
  (the cap then keeps all of them).
\<close>

theorem result_independent_of_order:
  assumes "valid_set_order so1" "valid_set_order so2"
    "include_combinations k \<longrightarrow>
       card (set (combination_insertions cy (take 5 (base_words k)) (include_years k))) \<le> 1000"
  shows "generate_wordlist so1 cy k = generate_wordlist so2 cy k"
proof -
  define ws where "ws = take 5 (base_words k)"
  have c: "set (generate_combinations so cy ws (include_leet k) (include_years k))
      = (if length ws < 2 then {} else set (combination_insertions cy ws (include_years k)))"
    if "valid_set_order so" "include_combinations k" for so
  proof -
    from that(2) assms(3) have "card (set (combination_insertions cy ws (include_years k))) \<le> 1000"
      by (simp add: ws_def)
    with that(1) have "set (take 1000 (so (combination_insertions cy ws (include_years k))))
        = set (combination_insertions cy ws (include_years k))"
      by (rule cap_identity)
    then show ?thesis by (simp add: generate_combinations_def)
  qed
  have "set (wordlist_insertions so1 cy k) = set (wordlist_insertions so2 cy k)"
    using c [OF assms(1)] c [OF assms(2)]
    unfolding wordlist_insertions_def ws_def [symmetric] by auto
  then have "sorted_list_of_set (set (wordlist_insertions so1 cy k))
      = sorted_list_of_set (set (wordlist_insertions so2 cy k))" by simp
  then have "final_wordlist so1 cy k = final_wordlist so2 cy k"
    by (simp add: final_wordlist_def sorted_list_of_set_sort_remdups)
  then show ?thesis by (simp add: generate_wordlist_def)
qed

theorem result_independent_of_order_witness:
  "valid_set_order (order_first ''ab'') \<and> valid_set_order (order_last ''ab'')
   \<and> card (set (combination_insertions 2026 (take 5 (base_words (defaults [''a'', ''b''])))
        (include_years (defaults [''a'', ''b''])))) \<le> 1000
   \<and> generate_wordlist (order_first ''ab'') 2026 (defaults [''a'', ''b''])
       = generate_wordlist (order_last ''ab'') 2026 (defaults [''a'', ''b''])"
proof -
  have b: "base_words (defaults [''a'', ''b'']) = [''a'', ''b'']"
    by (simp add: base_words_def defaults_def stripped_def process_dates_def strip_def char_eval)
  have "card (set (combination_insertions 2026 [''a'', ''b''] (include_years (defaults [''a'', ''b'']))))
      \<le> length (combination_insertions 2026 [''a'', ''b''] (include_years (defaults [''a'', ''b''])))"
    by (rule card_length)
  also have "\<dots> \<le> 140" by (rule length_pair_combinations)
  finally have h: "card (set (combination_insertions 2026 (take 5 (base_words (defaults [''a'', ''b''])))
        (include_years (defaults [''a'', ''b''])))) \<le> 1000"
    by (simp add: b)
  then have "include_combinations (defaults [''a'', ''b'']) \<longrightarrow>
       card (set (combination_insertions 2026 (take 5 (base_words (defaults [''a'', ''b''])))
        (include_years (defaults [''a'', ''b''])))) \<le> 1000" by simp
  from result_independent_of_order [OF valid_order_first valid_order_last this] h
    valid_order_first valid_order_last
  show ?thesis by simp
qed

subsection \<open>Normalization\<close>

text \<open>Where the words of a result come from.\<close>

lemma combination_source:
  assumes "w \<in> set (combination_insertions cy ws iy)"
  shows "\<exists>a \<in> set ws. \<exists>b \<in> set ws. clean_word a \<noteq> [] \<and> clean_word b \<noteq> []
    \<and> w \<in> set (combo_forms cy iy (clean_word a) (clean_word b))"
proof -
  from assms obtain i a j b where "(i, a) \<in> set (enumerate 0 ws)" "(j, b) \<in> set (enumerate 0 ws)"
    and c: "clean_word a \<noteq> []" "clean_word b \<noteq> []"
      "w \<in> set (combo_forms cy iy (clean_word a) (clean_word b))"
    by (auto simp: combination_insertions_def split: if_splits)
  then have "a \<in> set ws" "b \<in> set ws" by (auto simp: in_set_enumerate_eq)
  with c show ?thesis by blast
qed

lemma scored_words_fst: "scored_words cy ws = Inr sc \<Longrightarrow> map fst sc = ws"
  by (induction ws arbitrary: sc) (auto split: sum.splits)

lemma set_slice_to: "set (slice_to n xs) \<subseteq> set xs"
  by (auto simp: slice_to_def dest: in_set_takeD)

lemma result_subset:
  assumes "generate_wordlist so cy k = Inr ws"
  shows "set ws \<subseteq> set (wordlist_insertions so cy k)"
proof (cases "max_words k \<noteq> 0 \<and> max_words k < int (length (final_wordlist so cy k))")
  case False
  with assms have "ws = final_wordlist so cy k" by (auto simp: generate_wordlist_def)
  then show ?thesis by (simp add: set_final_wordlist)
next
  case True
  with assms have p: "prioritize_words cy (final_wordlist so cy k) (max_words k) = Inr ws"
    by (simp add: generate_wordlist_def)
  then obtain sc where sc: "scored_words cy (final_wordlist so cy k) = Inr sc"
    and ws: "ws = map fst (slice_to (max_words k) (sort_key (\<lambda>x. - snd x) sc))"
    by (auto simp: prioritize_words_def split: sum.splits)
  have "set (slice_to (max_words k) (sort_key (\<lambda>x. - snd x) sc)) \<subseteq> set sc"
    using set_slice_to [of "max_words k" "sort_key (\<lambda>x. - snd x) sc"] by simp
  then have "set ws \<subseteq> set (map fst sc)" unfolding ws by auto
  also have "\<dots> = set (final_wordlist so cy k)" using scored_words_fst [OF sc] by simp
  finally show ?thesis by (simp add: set_final_wordlist)
qed

text \<open>The count of insertions when some base words are normalized to nothing: only the
  others have variations.\<close>

lemma length_concat_filter_le:
  assumes "\<And>x. x \<in> set xs \<Longrightarrow> P x \<Longrightarrow> length (f x) \<le> c"
    and "\<And>x. x \<in> set xs \<Longrightarrow> \<not> P x \<Longrightarrow> f x = []"
  shows "length (concat (map f xs)) \<le> c * length (filter P xs)"
  using assms
proof (induction xs)
  case Nil
  then show ?case by simp
next
  case (Cons x xs)
  then have r: "length (concat (map f xs)) \<le> c * length (filter P xs)" by simp
  show ?case
  proof (cases "P x")
    case True
    with Cons.prems(1) [of x] have "length (f x) \<le> c" by simp
    with r True show ?thesis by simp
  next
    case False
    with Cons.prems(2) [of x] have "f x = []" by simp
    with r False show ?thesis by simp
  qed
qed

lemma length_wordlist_insertions_clean:
  assumes "length (filter (\<lambda>w. clean_word w \<noteq> []) (base_words k)) \<le> 5"
  shows "length (wordlist_insertions so cy k) \<le> 9465"
proof -
  let ?ws = "filter (\<lambda>word. word \<noteq> []) (base_words k)"
  let ?f = "\<lambda>word. generate_word_variations cy word (include_leet k) (include_years k)"
  define n where "n = length (filter (\<lambda>w. clean_word w \<noteq> []) ?ws)"
  have l: "length (concat (map ?f ?ws)) \<le> 1693 * n"
    unfolding n_def
  proof (rule length_concat_filter_le)
    fix x
    show "length (?f x) \<le> 1693" by (rule length_variations)
  next
    fix x
    assume "\<not> clean_word x \<noteq> []"
    then show "?f x = []" by (simp add: generate_word_variations_def)
  qed
  have a: "filter (\<lambda>w. clean_word w \<noteq> []) ?ws
      = filter (\<lambda>word. word \<noteq> []) (filter (\<lambda>w. clean_word w \<noteq> []) (base_words k))"
    by (simp add: conj_commute)
  have b: "n \<le> length (filter (\<lambda>w. clean_word w \<noteq> []) (base_words k))"
    unfolding n_def a by (rule length_filter_le)
  have "n \<le> 5" by (rule order_trans [OF b assms])
  with l have v: "length (concat (map ?f ?ws)) \<le> 8465" by simp
  have c: "length (generate_combinations so cy ws il iy) \<le> 1000" for ws il iy
    by (simp add: generate_combinations_def)
  show ?thesis
    using v c [of "take 5 (base_words k)" "include_leet k" "include_years k"]
    by (simp add: wordlist_insertions_def)
qed

lemma no_truncation_clean:
  assumes "length (filter (\<lambda>w. clean_word w \<noteq> []) (base_words k)) \<le> 5" "9465 \<le> max_words k"
  shows "generate_wordlist so cy k = Inr (final_wordlist so cy k)"
proof -
  have "length (final_wordlist so cy k) \<le> length (wordlist_insertions so cy k)"
    by (simp add: final_wordlist_def)
  also have "\<dots> \<le> 9465" using assms(1) by (rule length_wordlist_insertions_clean)
  finally show ?thesis using assms(2) by (simp add: generate_wordlist_def)
qed

text \<open>A combination starts as its first word does, or with that character upper-cased.\<close>

lemma combo_forms_hd:
  assumes "c1 \<noteq> []" "w \<in> set (combo_forms cy iy c1 c2)"
  shows "hd w = hd c1 \<or> hd w = upper_char (hd c1)"
proof -
  from assms(1) obtain x xs where "c1 = x # xs" by (cases c1) auto
  with assms(2) show ?thesis
    by (auto simp: combo_forms_def Let_def split: if_splits)
qed

lemma generate_wordlist_returns:
  assumes "valid_set_order so"
  shows "\<exists>ws. generate_wordlist so cy k = Inr ws"
proof -
  have "\<forall>w \<in> set (final_wordlist so cy k). w \<noteq> []"
  proof
    fix w assume "w \<in> set (final_wordlist so cy k)"
    then have "w \<in> set (wordlist_insertions so cy k)" by (simp add: set_final_wordlist)
    with assms have "2 \<le> length w" by (rule wordlist_min_length)
    then show "w \<noteq> []" by auto
  qed
  then show ?thesis
    by (simp add: generate_wordlist_def prioritize_words_def scored_words_Inr)
qed

lemma slot_base_words:
  "base_words (defaults [''!?'', ''emma'', ''dave'', ''carl'', ''beth'', ''anna''])
     = [''!?'', ''emma'', ''dave'', ''carl'', ''beth'', ''anna'']"
  "base_words (defaults [''emma'', ''dave'', ''carl'', ''beth'', ''anna''])
     = [''emma'', ''dave'', ''carl'', ''beth'', ''anna'']"
  by (simp_all add: base_words_def defaults_def stripped_def process_dates_def strip_def char_eval)

lemma slot_clean:
  "clean_word ''!?'' = []" "clean_word ''emma'' = ''emma''" "clean_word ''dave'' = ''dave''"
  "clean_word ''carl'' = ''carl''" "clean_word ''beth'' = ''beth''" "clean_word ''anna'' = ''anna''"
  by (simp_all add: clean_word_def char_eval)

lemma slot_without:
  "\<exists>ws. generate_wordlist (order_first ''annabeth'') 2026
          (defaults [''emma'', ''dave'', ''carl'', ''beth'', ''anna'']) = Inr ws
     \<and> ''annabeth'' \<in> set ws"
proof -
  let ?ns = "[''emma'', ''dave'', ''carl'', ''beth'', ''anna'']"
  have "''anna'' @ [] @ ''beth'' @ [] \<in> set (combo_forms 2026 True ''anna'' ''beth'')"
    by (rule suffixed_form) (simp_all add: separators_def)
  moreover have "set (combo_forms 2026 True (clean_word ''anna'') (clean_word ''beth''))
      \<subseteq> set (combination_insertions 2026 ?ns True)"
    by (rule pair_forms_inserted) (simp_all add: slot_clean)
  ultimately have "''annabeth'' \<in> set (combination_insertions 2026 ?ns True)"
    by (auto simp: slot_clean)
  then have "''annabeth'' \<in> set (take 1000 (order_first ''annabeth''
      (combination_insertions 2026 ?ns True)))"
    by (rule in_take_order_first)
  then have "''annabeth'' \<in> set (wordlist_insertions (order_first ''annabeth'') 2026 (defaults ?ns))"
    by (simp add: wordlist_insertions_def slot_base_words generate_combinations_def)
       (simp add: defaults_def)
  moreover have "generate_wordlist (order_first ''annabeth'') 2026 (defaults ?ns)
      = Inr (final_wordlist (order_first ''annabeth'') 2026 (defaults ?ns))"
    by (rule no_truncation) (simp_all add: slot_base_words, simp add: defaults_def)
  ultimately show ?thesis by (simp add: set_final_wordlist)
qed

lemma slot_with:
  "\<exists>ws. generate_wordlist (order_first ''annabeth'') 2026
          (defaults [''!?'', ''emma'', ''dave'', ''carl'', ''beth'', ''anna'']) = Inr ws
     \<and> ''annabeth'' \<notin> set ws"
proof -
  let ?ns = "[''!?'', ''emma'', ''dave'', ''carl'', ''beth'', ''anna'']"
  let ?so = "order_first ''annabeth''"
  have ins: "set (wordlist_insertions ?so 2026 (defaults ?ns)) =
     (\<Union>n \<in> set ?ns. set (generate_word_variations 2026 n True True))
     \<union> set (generate_combinations ?so 2026 [''!?'', ''emma'', ''dave'', ''carl'', ''beth''] True True)"
    by (simp add: wordlist_insertions_def slot_base_words) (auto simp add: defaults_def)
  have v: "''annabeth'' \<notin> (\<Union>n \<in> set ?ns. set (generate_word_variations 2026 n True True))"
    using annabeth_not_variation_anna annabeth_not_variation_beth annabeth_not_variation_carl
      annabeth_not_variation_dave annabeth_not_variation_emma
    by (simp add: generate_word_variations_def [of 2026 "''!?''"] slot_clean)
  have c: "''annabeth'' \<notin> set (combination_insertions 2026
      [''!?'', ''emma'', ''dave'', ''carl'', ''beth''] True)"
  proof
    assume "''annabeth'' \<in> set (combination_insertions 2026
      [''!?'', ''emma'', ''dave'', ''carl'', ''beth''] True)"
    then obtain a b where a: "a \<in> set [''!?'', ''emma'', ''dave'', ''carl'', ''beth'']"
      and ne: "clean_word a \<noteq> []"
      and f: "''annabeth'' \<in> set (combo_forms 2026 True (clean_word a) (clean_word b))"
      using combination_source by blast
    from ne f have "hd ''annabeth'' = hd (clean_word a) \<or> hd ''annabeth'' = upper_char (hd (clean_word a))"
      by (rule combo_forms_hd)
    with a ne show False by (auto simp: slot_clean char_eval)
  qed
  have "set (generate_combinations ?so 2026 [''!?'', ''emma'', ''dave'', ''carl'', ''beth''] True True)
      \<subseteq> set (combination_insertions 2026 [''!?'', ''emma'', ''dave'', ''carl'', ''beth''] True)"
    using valid_order_first by (rule generate_combinations_subset)
  with c v have "''annabeth'' \<notin> set (wordlist_insertions ?so 2026 (defaults ?ns))"
    unfolding ins by blast
  moreover have "generate_wordlist ?so 2026 (defaults ?ns)
      = Inr (final_wordlist ?so 2026 (defaults ?ns))"
    by (rule no_truncation_clean) (simp_all add: slot_base_words slot_clean, simp add: defaults_def)
  ultimately show ?thesis by (simp add: set_final_wordlist)
qed

text \<open>
  C8, as stated: a seed string without alphanumeric characters is normalized to the empty
  string, so the token is dropped and contributes no variations. Two things fail. The
  class \<open>\w\<close> holds the underscore, so a seed made of underscores is kept: \<open>___\<close> has no
  alphanumeric character, is its own normalization, and is among its own variations. And
  a token that is normalized to nothing is not dropped from the list of base words: it
  takes one of the five places of the combinations. With \<open>!?\<close> ahead of five names the
  fifth name is combined with nothing, and the result has lost \<open>annabeth\<close>, which the
  same call without \<open>!?\<close> returns.
\<close>

theorem underscore_kept_and_slot_taken:
  "\<not> list_ex is_alnum ''___'' \<and> clean_word ''___'' = ''___''
   \<and> ''___'' \<in> set (generate_word_variations 2026 ''___'' False False)
   \<and> \<not> list_ex is_alnum ''!?'' \<and> clean_word ''!?'' = []
   \<and> generate_wordlist (order_first ''annabeth'') 2026
         (defaults [''!?'', ''emma'', ''dave'', ''carl'', ''beth'', ''anna''])
       \<noteq> generate_wordlist (order_first ''annabeth'') 2026
         (defaults [''emma'', ''dave'', ''carl'', ''beth'', ''anna''])"
proof -
  have "\<not> list_ex is_alnum ''___'' \<and> clean_word ''___'' = ''___''
   \<and> ''___'' \<in> set (generate_word_variations 2026 ''___'' False False)"
    by (simp add: clean_word_def generate_word_variations_def Let_def char_eval)
  moreover have "\<not> list_ex is_alnum ''!?''" by (simp add: char_eval)
  moreover from slot_with slot_without
  have "generate_wordlist (order_first ''annabeth'') 2026
         (defaults [''!?'', ''emma'', ''dave'', ''carl'', ''beth'', ''anna''])
       \<noteq> generate_wordlist (order_first ''annabeth'') 2026
         (defaults [''emma'', ''dave'', ''carl'', ''beth'', ''anna''])"
    by auto
  ultimately show ?thesis by (simp add: slot_clean)
qed

text \<open>
  C8, amended: a seed string without word characters (no character of the class \<open>\w\<close>:
  no letter, no digit or other numeric character, no underscore) is normalized to the
  empty string and has no variations; every call returns a list, and every word of that
  list is a variation of another base word or a combination of two other base words.
  That the token leaves the list of base words is not part of the statement.
\<close>

theorem no_word_chars_no_contribution:
  assumes "\<not> list_ex is_word word" "valid_set_order so"
  shows "clean_word word = []
    \<and> generate_word_variations cy word il iy = []
    \<and> (\<exists>ws. generate_wordlist so cy k = Inr ws
          \<and> (\<forall>w \<in> set ws.
                (\<exists>t \<in> set (base_words k). t \<noteq> word
                    \<and> w \<in> set (generate_word_variations cy t (include_leet k) (include_years k)))
              \<or> (\<exists>a \<in> set (base_words k). \<exists>b \<in> set (base_words k). a \<noteq> word \<and> b \<noteq> word
                    \<and> w \<in> set (combo_forms cy (include_years k) (clean_word a) (clean_word b)))))"
proof -
  have cl: "clean_word word = []" using assms(1) by (rule not_word_clean)
  then have v: "generate_word_variations cy word il iy = []" for il iy
    by (simp add: generate_word_variations_def)
  from generate_wordlist_returns [OF assms(2)]
  obtain ws where ws: "generate_wordlist so cy k = Inr ws" by blast
  have "(\<exists>t \<in> set (base_words k). t \<noteq> word
            \<and> w \<in> set (generate_word_variations cy t (include_leet k) (include_years k)))
        \<or> (\<exists>a \<in> set (base_words k). \<exists>b \<in> set (base_words k). a \<noteq> word \<and> b \<noteq> word
            \<and> w \<in> set (combo_forms cy (include_years k) (clean_word a) (clean_word b)))"
    if "w \<in> set ws" for w
  proof -
    from that result_subset [OF ws] have "w \<in> set (wordlist_insertions so cy k)" by blast
    then consider
      (var) t where "t \<in> set (base_words k)"
        "w \<in> set (generate_word_variations cy t (include_leet k) (include_years k))"
    | (com) "w \<in> set (generate_combinations so cy (take 5 (base_words k))
          (include_leet k) (include_years k))"
      by (auto simp: wordlist_insertions_def split: if_splits)
    then show ?thesis
    proof cases
      case var
      with v have "t \<noteq> word" by auto
      with var show ?thesis by blast
    next
      case com
      with generate_combinations_subset [OF assms(2)]
      have "w \<in> set (combination_insertions cy (take 5 (base_words k)) (include_years k))"
        by blast
      then obtain a b where ab: "a \<in> set (take 5 (base_words k))" "b \<in> set (take 5 (base_words k))"
        "clean_word a \<noteq> []" "clean_word b \<noteq> []"
        "w \<in> set (combo_forms cy (include_years k) (clean_word a) (clean_word b))"
        using combination_source by blast
      from ab(1,2) have "a \<in> set (base_words k)" "b \<in> set (base_words k)"
        by (auto dest: in_set_takeD)
      moreover from ab(3,4) cl have "a \<noteq> word" "b \<noteq> word" by auto
      ultimately show ?thesis using ab(5) by blast
    qed
  qed
  with ws cl v show ?thesis by blast
qed

theorem no_word_chars_no_contribution_witness:
  "\<not> list_ex is_word ''!?'' \<and> valid_set_order remdups
   \<and> clean_word ''!?'' = []
   \<and> generate_word_variations 2026 ''!?'' True True = []
   \<and> (\<exists>ws. generate_wordlist remdups 2026 (defaults [''!?'', ''bob'']) = Inr ws)"
proof -
  have h: "\<not> list_ex is_word ''!?''" by (simp add: char_eval)
  from no_word_chars_no_contribution [OF h valid_remdups, of 2026 True True "defaults [''!?'', ''bob'']"]
    h valid_remdups
  show ?thesis by blast
qed

end
